theory Spec2Isabelle
  imports Main "HOL-Library.Word" "HOL-Library.Multiset"
begin

section \<open>The contended counter: three small C++ programs\<close>

text \<open>
  The repository holds three programs. \<^verbatim>\<open>src/atomic/main.cpp\<close> increments a plain
  \<^verbatim>\<open>int counter\<close> from \<^verbatim>\<open>threadCount\<close> threads, each holding a \<^verbatim>\<open>std::mutex\<close> for its
  whole loop. \<^verbatim>\<open>src/src/atomic/main.cpp\<close> does the same on a \<^verbatim>\<open>std::atomic<int>\<close> with no
  lock. \<^verbatim>\<open>src/src/atomic/test_features.cpp\<close> starts five threads of a thousand atomic
  increments each.

  The programs are modelled as an interleaving semantics: a state holds the shared
  variables, the local variables of every started thread and the position of the
  orchestrating \<^verbatim>\<open>main\<close>; a step runs one statement of one thread; a schedule is the
  list of threads chosen, step by step. The mutex program is free of data races and
  the other two programs share only a sequentially consistent atomic, so every
  behaviour of the C++ programs is the behaviour of one schedule.
\<close>

subsection \<open>Data\<close>

text \<open>A C++ \<^verbatim>\<open>int\<close>: 32 bits, two's complement, read with \<^const>\<open>sint\<close>.\<close>

type_synonym cint = "32 word"

definition INT_MAX :: cint where
  "INT_MAX = 2147483647"

datatype discipline = Locking | Atomic

text \<open>
  The three programs. The two \<^verbatim>\<open>main.cpp\<close> files read the globals \<^verbatim>\<open>threadCount\<close> and
  \<^verbatim>\<open>iterations\<close>, which are the arguments here (the files initialise them to 100 and
  1000000). The feature probe is compiled for one language standard, the value of
  the macro \<^verbatim>\<open>__cplusplus\<close>.
\<close>

datatype program = MutexMain cint cint | AtomicMain cint cint | FeatureTest nat

fun threadCount :: "program \<Rightarrow> cint" where
  "threadCount (MutexMain tc it) = tc"
| "threadCount (AtomicMain tc it) = tc"
| "threadCount (FeatureTest std) = 5"

fun iterations :: "program \<Rightarrow> cint" where
  "iterations (MutexMain tc it) = it"
| "iterations (AtomicMain tc it) = it"
| "iterations (FeatureTest std) = 1000"

fun discipline_of :: "program \<Rightarrow> discipline" where
  "discipline_of (MutexMain tc it) = Locking"
| "discipline_of (AtomicMain tc it) = Atomic"
| "discipline_of (FeatureTest std) = Atomic"

text \<open>The two programs as the repository ships them.\<close>

definition mutex_main :: program where
  "mutex_main = MutexMain 100 1000000"

definition atomic_main :: program where
  "atomic_main = AtomicMain 100 1000000"

text \<open>
  The statements of a worker. \<^verbatim>\<open>Acquire\<close> is the constructor of the \<^verbatim>\<open>lock_guard\<close> and
  \<^verbatim>\<open>Release\<close> its destructor at the end of the lambda. \<^verbatim>\<open>counter++\<close> on the plain
  \<^verbatim>\<open>int\<close> is a read (\<^verbatim>\<open>Load\<close>) followed by a write (\<^verbatim>\<open>Store\<close>); on the
  \<^verbatim>\<open>std::atomic<int>\<close> it is one \<^verbatim>\<open>FetchAdd\<close>. \<^verbatim>\<open>Test\<close> is \<^verbatim>\<open>i < iterations\<close>,
  \<^verbatim>\<open>ToString\<close> is \<^verbatim>\<open>std::to_string(counter)\<close>, \<^verbatim>\<open>Incr\<close> is \<^verbatim>\<open>++i\<close>.
\<close>

datatype wpc = Acquire | Test | Load | Store | FetchAdd | ToString | Incr | Release | Finished

record worker =
  wpc :: wpc
  wi :: cint
  wtmp :: cint
  memeSmth :: string

text \<open>The statements of \<^verbatim>\<open>main\<close> (of \<^verbatim>\<open>test_features\<close> followed by \<^verbatim>\<open>main\<close>'s return, for the probe).\<close>

datatype mpc = Banner | Spawn | Join nat | Report | Cxx20 | Return | Exited

record state =
  counter :: cint
  mutex_m :: bool
  threads :: "worker list"
  mpc :: mpc
  main_i :: cint
  cout :: "string list"
  exit_code :: "int option"

datatype tid = Main | Worker nat

text \<open>
  A step of a thread that cannot run (blocked on the mutex or in \<^verbatim>\<open>join\<close>, finished,
  or not started) is \<open>Disabled\<close>; a step with undefined behaviour (overflow of a plain
  \<^verbatim>\<open>int\<close>) is \<open>Undefined\<close>.
\<close>

datatype 'a outcome = Disabled | Undefined | Next 'a

subsection \<open>Printing integers\<close>

definition digit :: "nat \<Rightarrow> char" where
  "digit d = ''0123456789'' ! d"

fun digits :: "nat \<Rightarrow> string" where
  "digits n = (if n < 10 then [digit n] else digits (n div 10) @ [digit (n mod 10)])"

declare digits.simps [simp del]

definition to_string :: "cint \<Rightarrow> string" where
  "to_string x =
     (if sint x < 0 then CHR ''-'' # digits (nat (- sint x)) else digits (nat (sint x)))"

subsection \<open>The workers\<close>

text \<open>Where a new thread starts: at the \<^verbatim>\<open>lock_guard\<close> in the mutex program, at the loop otherwise.\<close>

definition worker_entry :: "program \<Rightarrow> wpc" where
  "worker_entry p = (case discipline_of p of Locking \<Rightarrow> Acquire | Atomic \<Rightarrow> Test)"

definition body_entry :: "program \<Rightarrow> wpc" where
  "body_entry p = (case discipline_of p of Locking \<Rightarrow> Load | Atomic \<Rightarrow> FetchAdd)"

definition loop_exit :: "program \<Rightarrow> wpc" where
  "loop_exit p = (case discipline_of p of Locking \<Rightarrow> Release | Atomic \<Rightarrow> Finished)"

text \<open>After \<^verbatim>\<open>counter++\<close>: both \<^verbatim>\<open>main.cpp\<close> call \<^verbatim>\<open>std::to_string(counter)\<close>, the probe does not.\<close>

fun after_inc :: "program \<Rightarrow> wpc" where
  "after_inc (MutexMain tc it) = ToString"
| "after_inc (AtomicMain tc it) = ToString"
| "after_inc (FeatureTest std) = Incr"

text \<open>The loop variable \<^verbatim>\<open>int i = 0\<close> is local; its initialisation is folded into the thread's start.\<close>

definition new_worker :: "program \<Rightarrow> worker" where
  "new_worker p = \<lparr>wpc = worker_entry p, wi = 0, wtmp = 0, memeSmth = []\<rparr>"

text \<open>
  One statement of the \<open>k\<close>-th worker, on the whole state. The lambda reads
  \<^verbatim>\<open>iterations\<close> and touches the counter, the mutex (in the mutex program) and its own
  local variables.
\<close>

definition wstep :: "program \<Rightarrow> state \<Rightarrow> nat \<Rightarrow> state outcome" where
  "wstep p s k =
     (let w = threads s ! k in
      case wpc w of
        Acquire \<Rightarrow>
          if mutex_m s then Disabled
          else Next (s\<lparr>mutex_m := True, threads := (threads s)[k := w\<lparr>wpc := Test\<rparr>]\<rparr>)
      | Test \<Rightarrow>
          Next (s\<lparr>threads := (threads s)
            [k := w\<lparr>wpc := (if wi w <s iterations p then body_entry p else loop_exit p)\<rparr>]\<rparr>)
      | Load \<Rightarrow>
          Next (s\<lparr>threads := (threads s)[k := w\<lparr>wtmp := counter s, wpc := Store\<rparr>]\<rparr>)
      | Store \<Rightarrow>
          if wtmp w = INT_MAX then Undefined
          else Next (s\<lparr>counter := wtmp w + 1,
                 threads := (threads s)[k := w\<lparr>wpc := after_inc p\<rparr>]\<rparr>)
      | FetchAdd \<Rightarrow>
          Next (s\<lparr>counter := counter s + 1,
            threads := (threads s)[k := w\<lparr>wpc := after_inc p\<rparr>]\<rparr>)
      | ToString \<Rightarrow>
          Next (s\<lparr>threads := (threads s)
            [k := w\<lparr>memeSmth := to_string (counter s), wpc := Incr\<rparr>]\<rparr>)
      | Incr \<Rightarrow>
          if wi w = INT_MAX then Undefined
          else Next (s\<lparr>threads := (threads s)[k := w\<lparr>wi := wi w + 1, wpc := Test\<rparr>]\<rparr>)
      | Release \<Rightarrow>
          Next (s\<lparr>mutex_m := False, threads := (threads s)[k := w\<lparr>wpc := Finished\<rparr>]\<rparr>)
      | Finished \<Rightarrow> Disabled)"

subsection \<open>The orchestrator\<close>

fun entry :: "program \<Rightarrow> mpc" where
  "entry (MutexMain tc it) = Spawn"
| "entry (AtomicMain tc it) = Spawn"
| "entry (FeatureTest std) = Banner"

fun label :: "program \<Rightarrow> string" where
  "label (MutexMain tc it) = ''Counter: ''"
| "label (AtomicMain tc it) = ''Counter: ''"
| "label (FeatureTest std) = ''Final counter value: ''"

fun after_report :: "program \<Rightarrow> mpc" where
  "after_report (MutexMain tc it) = Return"
| "after_report (AtomicMain tc it) = Return"
| "after_report (FeatureTest std) = Cxx20"

fun banner :: "program \<Rightarrow> string list" where
  "banner (FeatureTest std) = [''C++ Standard: '' @ digits std]"
| "banner p = []"

text \<open>The block of the probe that is compiled from C++20 on.\<close>

definition test_numeric :: "cint \<Rightarrow> cint" where
  "test_numeric x = x * 2"

definition even_numbers :: "int list \<Rightarrow> int list" where
  "even_numbers numbers = filter (\<lambda>n. n mod 2 = 0) numbers"

fun cxx20 :: "program \<Rightarrow> string list" where
  "cxx20 (FeatureTest std) =
     (if 202002 \<le> std then
        [''Testing C++20 features:'',
         ''Numeric concept test: '' @ to_string (test_numeric 42),
         ''Ranges test - Even numbers:'' @
           concat (map (\<lambda>n. '' '' @ digits (nat n)) (even_numbers [1, 2, 3, 4, 5]))]
      else [])"
| "cxx20 p = []"

text \<open>
  One step of \<^verbatim>\<open>main\<close>. \<open>Spawn\<close> is one turn of the first loop (test, \<^verbatim>\<open>emplace_back\<close>,
  \<^verbatim>\<open>++i\<close>; the increment cannot overflow below \<^verbatim>\<open>threadCount\<close>); \<open>Join k\<close> is the
  \<^verbatim>\<open>join\<close> of the \<open>k\<close>-th thread of the vector, which blocks until that thread has
  finished. A failure to create a thread is not modelled.
\<close>

definition mstep :: "program \<Rightarrow> state \<Rightarrow> state outcome" where
  "mstep p s =
     (case mpc s of
        Banner \<Rightarrow> Next (s\<lparr>cout := cout s @ banner p, mpc := Spawn\<rparr>)
      | Spawn \<Rightarrow>
          if main_i s <s threadCount p
          then Next (s\<lparr>threads := threads s @ [new_worker p], main_i := main_i s + 1\<rparr>)
          else Next (s\<lparr>mpc := Join 0\<rparr>)
      | Join k \<Rightarrow>
          if k < length (threads s)
          then (if wpc (threads s ! k) = Finished then Next (s\<lparr>mpc := Join (Suc k)\<rparr>)
                else Disabled)
          else Next (s\<lparr>mpc := Report\<rparr>)
      | Report \<Rightarrow>
          Next (s\<lparr>cout := cout s @ [label p @ to_string (counter s)], mpc := after_report p\<rparr>)
      | Cxx20 \<Rightarrow> Next (s\<lparr>cout := cout s @ cxx20 p, mpc := Return\<rparr>)
      | Return \<Rightarrow> Next (s\<lparr>exit_code := Some 0, mpc := Exited\<rparr>)
      | Exited \<Rightarrow> Disabled)"

subsection \<open>Schedules\<close>

definition step :: "program \<Rightarrow> tid \<Rightarrow> state \<Rightarrow> state outcome" where
  "step p t s =
     (case t of
        Main \<Rightarrow> mstep p s
      | Worker k \<Rightarrow> if k < length (threads s) then wstep p s k else Disabled)"

fun exec :: "program \<Rightarrow> tid list \<Rightarrow> state \<Rightarrow> state outcome" where
  "exec p [] s = Next s"
| "exec p (t # ts) s =
     (case step p t s of
        Next s' \<Rightarrow> exec p ts s'
      | Disabled \<Rightarrow> Disabled
      | Undefined \<Rightarrow> Undefined)"

definition init :: "program \<Rightarrow> state" where
  "init p = \<lparr>counter = 0, mutex_m = False, threads = [], mpc = entry p, main_i = 0,
             cout = [], exit_code = None\<rparr>"

text \<open>A run of the program under a schedule, and the final count it returns when it completes.\<close>

definition run :: "program \<Rightarrow> tid list \<Rightarrow> state outcome" where
  "run p sched = exec p sched (init p)"

definition completes :: "program \<Rightarrow> tid list \<Rightarrow> state \<Rightarrow> bool" where
  "completes p sched s \<longleftrightarrow> run p sched = Next s \<and> mpc s = Exited"

definition final_count :: "program \<Rightarrow> tid list \<Rightarrow> int option" where
  "final_count p sched =
     (case run p sched of
        Next s \<Rightarrow> if mpc s = Exited then Some (sint (counter s)) else None
      | Disabled \<Rightarrow> None
      | Undefined \<Rightarrow> None)"

text \<open>Three schedules of two threads and one iteration, used to run the model.\<close>

definition sequential_schedule :: "tid list" where
  "sequential_schedule =
     [Main, Main, Main,
      Worker 0, Worker 0, Worker 0, Worker 0, Worker 0, Worker 0, Worker 0, Worker 0,
      Worker 1, Worker 1, Worker 1, Worker 1, Worker 1, Worker 1, Worker 1, Worker 1,
      Main, Main, Main, Main, Main]"

definition reverse_schedule :: "tid list" where
  "reverse_schedule =
     [Main, Main, Main,
      Worker 1, Worker 1, Worker 1, Worker 1, Worker 1,
      Worker 0, Worker 0, Worker 0, Worker 0, Worker 0,
      Main, Main, Main, Main, Main]"

definition interleaved_schedule :: "tid list" where
  "interleaved_schedule =
     [Main, Worker 0, Main, Worker 0, Worker 1, Worker 0, Worker 1, Main, Worker 1, Worker 0,
      Worker 1, Worker 0, Main, Worker 1, Main, Main, Main, Main]"

text \<open>
  A schedule for any configuration: at every step the first thread that can run,
  \<^verbatim>\<open>main\<close> before the workers and these in the order of the vector, for at most a given
  number of steps.
\<close>

definition enabled :: "program \<Rightarrow> state \<Rightarrow> tid \<Rightarrow> bool" where
  "enabled p s t = (case step p t s of Next s' \<Rightarrow> True | Disabled \<Rightarrow> False | Undefined \<Rightarrow> False)"

definition first_enabled :: "program \<Rightarrow> state \<Rightarrow> tid option" where
  "first_enabled p s = find (enabled p s) (Main # map Worker [0..<length (threads s)])"

fun first_enabled_from :: "program \<Rightarrow> nat \<Rightarrow> state \<Rightarrow> tid list" where
  "first_enabled_from p 0 s = []"
| "first_enabled_from p (Suc n) s =
     (case first_enabled p s of
        None \<Rightarrow> []
      | Some t \<Rightarrow>
          (case step p t s of
             Next s' \<Rightarrow> t # first_enabled_from p n s'
           | Disabled \<Rightarrow> []
           | Undefined \<Rightarrow> []))"

subsection \<open>Counting the statements a schedule runs\<close>

text \<open>The statement a thread is about to run, for a started worker.\<close>

definition next_pc :: "tid \<Rightarrow> state \<Rightarrow> wpc option" where
  "next_pc t s =
     (case t of
        Main \<Rightarrow> None
      | Worker k \<Rightarrow> if k < length (threads s) then Some (wpc (threads s ! k)) else None)"

fun count_steps :: "(tid \<Rightarrow> wpc option \<Rightarrow> bool) \<Rightarrow> program \<Rightarrow> tid list \<Rightarrow> state \<Rightarrow> nat" where
  "count_steps P p [] s = 0"
| "count_steps P p (t # ts) s =
     (case step p t s of
        Next s' \<Rightarrow> (if P t (next_pc t s) then 1 else 0) + count_steps P p ts s'
      | Disabled \<Rightarrow> 0
      | Undefined \<Rightarrow> 0)"

text \<open>The writes of \<^verbatim>\<open>counter++\<close> in a run: by all workers, by one worker, and the atomic ones.\<close>

definition increments :: "program \<Rightarrow> tid list \<Rightarrow> nat" where
  "increments p sched =
     count_steps (\<lambda>t c. c = Some FetchAdd \<or> c = Some Store) p sched (init p)"

definition increments_by :: "program \<Rightarrow> nat \<Rightarrow> tid list \<Rightarrow> nat" where
  "increments_by p k sched =
     count_steps (\<lambda>t c. t = Worker k \<and> (c = Some FetchAdd \<or> c = Some Store)) p sched (init p)"

definition fetch_adds :: "program \<Rightarrow> tid list \<Rightarrow> nat" where
  "fetch_adds p sched = count_steps (\<lambda>t c. c = Some FetchAdd) p sched (init p)"

text \<open>The lock and unlock operations of a run.\<close>

definition acquires :: "program \<Rightarrow> nat \<Rightarrow> tid list \<Rightarrow> nat" where
  "acquires p k sched = count_steps (\<lambda>t c. t = Worker k \<and> c = Some Acquire) p sched (init p)"

definition releases :: "program \<Rightarrow> nat \<Rightarrow> tid list \<Rightarrow> nat" where
  "releases p k sched = count_steps (\<lambda>t c. t = Worker k \<and> c = Some Release) p sched (init p)"

definition lock_operations :: "program \<Rightarrow> tid list \<Rightarrow> nat" where
  "lock_operations p sched =
     count_steps (\<lambda>t c. c = Some Acquire \<or> c = Some Release) p sched (init p)"

subsection \<open>What every reachable state satisfies\<close>

text \<open>
  The step of a worker once more, as a function of what it reads (the counter, the
  mutex, its own variables) to what it writes. The proofs work with this form;
  \<open>wstep_wlocal\<close> below shows that it is the step above.
\<close>

definition wlocal :: "program \<Rightarrow> cint \<Rightarrow> bool \<Rightarrow> worker \<Rightarrow> (cint \<times> bool \<times> worker) outcome" where
  "wlocal p c m w =
     (case wpc w of
        Acquire \<Rightarrow> if m then Disabled else Next (c, True, w\<lparr>wpc := Test\<rparr>)
      | Test \<Rightarrow>
          Next (c, m, w\<lparr>wpc := (if wi w <s iterations p then body_entry p else loop_exit p)\<rparr>)
      | Load \<Rightarrow> Next (c, m, w\<lparr>wtmp := c, wpc := Store\<rparr>)
      | Store \<Rightarrow>
          if wtmp w = INT_MAX then Undefined
          else Next (wtmp w + 1, m, w\<lparr>wpc := after_inc p\<rparr>)
      | FetchAdd \<Rightarrow> Next (c + 1, m, w\<lparr>wpc := after_inc p\<rparr>)
      | ToString \<Rightarrow> Next (c, m, w\<lparr>memeSmth := to_string c, wpc := Incr\<rparr>)
      | Incr \<Rightarrow>
          if wi w = INT_MAX then Undefined
          else Next (c, m, w\<lparr>wi := wi w + 1, wpc := Test\<rparr>)
      | Release \<Rightarrow> Next (c, False, w\<lparr>wpc := Finished\<rparr>)
      | Finished \<Rightarrow> Disabled)"

text \<open>How often the loops run: a negative bound runs a loop zero times.\<close>

definition iters :: "program \<Rightarrow> nat" where
  "iters p = nat (sint (iterations p))"

definition nthreads :: "program \<Rightarrow> nat" where
  "nthreads p = nat (sint (threadCount p))"

text \<open>The increments a worker has performed, read off its position and its loop variable.\<close>

definition incs :: "worker \<Rightarrow> nat" where
  "incs w = unat (wi w) + (if wpc w = ToString \<or> wpc w = Incr then 1 else 0)"

text \<open>Whether the next statement of a worker writes the counter.\<close>

definition at_increment :: "worker \<Rightarrow> nat" where
  "at_increment w = (if wpc w = Store \<or> wpc w = FetchAdd then 1 else 0)"

text \<open>The same for the \<open>k\<close>-th thread of the vector, zero before it is started.\<close>

definition incs_of :: "nat \<Rightarrow> state \<Rightarrow> nat" where
  "incs_of k s = (if k < length (threads s) then incs (threads s ! k) else 0)"

text \<open>Whether the \<open>k\<close>-th thread has passed its \<^verbatim>\<open>lock_guard\<close>'s constructor, and its destructor.\<close>

definition acquired :: "nat \<Rightarrow> state \<Rightarrow> nat" where
  "acquired k s = (if k < length (threads s) \<and> wpc (threads s ! k) \<noteq> Acquire then 1 else 0)"

definition released :: "nat \<Rightarrow> state \<Rightarrow> nat" where
  "released k s = (if k < length (threads s) \<and> wpc (threads s ! k) = Finished then 1 else 0)"

text \<open>Whether a worker of the mutex program is between its \<^verbatim>\<open>lock_guard\<close>'s two ends.\<close>

definition holding :: "program \<Rightarrow> worker \<Rightarrow> nat" where
  "holding p w =
     (if discipline_of p = Locking \<and> wpc w \<noteq> Acquire \<and> wpc w \<noteq> Finished then 1 else 0)"

definition worker_ok :: "program \<Rightarrow> worker \<Rightarrow> bool" where
  "worker_ok p w \<longleftrightarrow>
     unat (wi w) \<le> iters p \<and>
     (wpc w \<in> {Load, Store, FetchAdd, ToString, Incr} \<longrightarrow> unat (wi w) < iters p) \<and>
     (wpc w \<in> {Release, Finished} \<longrightarrow> unat (wi w) = iters p) \<and>
     (wpc w = Acquire \<longrightarrow> wi w = 0) \<and>
     (discipline_of p = Atomic \<longrightarrow> wpc w \<notin> {Acquire, Load, Store, Release}) \<and>
     (discipline_of p = Locking \<longrightarrow> wpc w \<noteq> FetchAdd) \<and>
     (after_inc p = Incr \<longrightarrow> wpc w \<noteq> ToString)"

definition inv_workers :: "program \<Rightarrow> state \<Rightarrow> bool" where
  "inv_workers p s \<longleftrightarrow> (\<forall>w \<in> set (threads s). worker_ok p w)"

definition inv_counter :: "program \<Rightarrow> state \<Rightarrow> bool" where
  "inv_counter p s \<longleftrightarrow>
     counter s = word_of_nat (sum_list (map incs (threads s))) \<and>
     (discipline_of p = Locking \<longrightarrow> sum_list (map incs (threads s)) < 2 ^ 31) \<and>
     (\<forall>w \<in> set (threads s). wpc w = Store \<longrightarrow> wtmp w = counter s)"

definition inv_mutex :: "program \<Rightarrow> state \<Rightarrow> bool" where
  "inv_mutex p s \<longleftrightarrow>
     sum_list (map (holding p) (threads s)) = (if mutex_m s then 1 else 0)"

definition inv_main :: "program \<Rightarrow> state \<Rightarrow> bool" where
  "inv_main p s \<longleftrightarrow>
     length (threads s) = unat (main_i s) \<and>
     unat (main_i s) \<le> nthreads p \<and>
     (mpc s \<noteq> Banner \<and> mpc s \<noteq> Spawn \<longrightarrow> unat (main_i s) = nthreads p) \<and>
     (\<forall>k. mpc s = Join k \<longrightarrow> (\<forall>j < k. j < length (threads s) \<longrightarrow> wpc (threads s ! j) = Finished)) \<and>
     (mpc s \<in> {Report, Cxx20, Return, Exited} \<longrightarrow> (\<forall>w \<in> set (threads s). wpc w = Finished)) \<and>
     (mpc s = Banner \<longrightarrow> entry p = Banner) \<and>
     (mpc s = Cxx20 \<longrightarrow> after_report p = Cxx20)"

text \<open>What has been printed, by the position of \<^verbatim>\<open>main\<close>.\<close>

definition printed :: "program \<Rightarrow> state \<Rightarrow> string list" where
  "printed p s =
     (case mpc s of
        Banner \<Rightarrow> []
      | Spawn \<Rightarrow> banner p
      | Join k \<Rightarrow> banner p
      | Report \<Rightarrow> banner p
      | Cxx20 \<Rightarrow> banner p @ [label p @ to_string (counter s)]
      | Return \<Rightarrow> banner p @ [label p @ to_string (counter s)] @ cxx20 p
      | Exited \<Rightarrow> banner p @ [label p @ to_string (counter s)] @ cxx20 p)"

definition inv_out :: "program \<Rightarrow> state \<Rightarrow> bool" where
  "inv_out p s \<longleftrightarrow>
     cout s = printed p s \<and> exit_code s = (if mpc s = Exited then Some 0 else None)"

definition invariant :: "program \<Rightarrow> state \<Rightarrow> bool" where
  "invariant p s \<longleftrightarrow>
     inv_workers p s \<and> inv_counter p s \<and> inv_mutex p s \<and> inv_main p s \<and> inv_out p s"

text \<open>
  A bound on the steps that remain: every step of every thread lowers it, so no
  schedule runs forever.
\<close>

definition wrank :: "wpc \<Rightarrow> nat" where
  "wrank c =
     (case c of
        Acquire \<Rightarrow> 6 | Test \<Rightarrow> 5 | Load \<Rightarrow> 4 | FetchAdd \<Rightarrow> 4 | Store \<Rightarrow> 3
      | ToString \<Rightarrow> 2 | Incr \<Rightarrow> 1 | Release \<Rightarrow> 1 | Finished \<Rightarrow> 0)"

definition wremaining :: "program \<Rightarrow> worker \<Rightarrow> nat" where
  "wremaining p w = 6 * (iters p - unat (wi w)) + wrank (wpc w)"

definition mremaining :: "program \<Rightarrow> state \<Rightarrow> nat" where
  "mremaining p s =
     (case mpc s of
        Banner \<Rightarrow> 2 * nthreads p + 7
      | Spawn \<Rightarrow> (nthreads p - unat (main_i s)) + nthreads p + 6
      | Join k \<Rightarrow> (nthreads p - k) + 4
      | Report \<Rightarrow> 3 | Cxx20 \<Rightarrow> 2 | Return \<Rightarrow> 1 | Exited \<Rightarrow> 0)"

definition remaining :: "program \<Rightarrow> state \<Rightarrow> nat" where
  "remaining p s =
     mremaining p s + (nthreads p - unat (main_i s)) * (6 * iters p + 7)
       + sum_list (map (wremaining p) (threads s))"

text \<open>The schedule of the first enabled thread, from the start and for as long as steps can remain.\<close>

definition canonical_schedule :: "program \<Rightarrow> tid list" where
  "canonical_schedule p = first_enabled_from p (remaining p (init p)) (init p)"

section \<open>Proofs\<close>

subsection \<open>Arithmetic of the 32-bit loop variables\<close>

lemma sint_small:
  fixes x :: cint
  assumes "unat x < 2 ^ 31"
  shows "sint x = int (unat x)"
proof -
  have "sint x = signed_take_bit (LENGTH(32) - Suc 0) (uint x)"
    by (rule sint_uint)
  also have "\<dots> = uint x"
  proof (rule signed_take_bit_int_eq_self)
    show "- (2 ^ (LENGTH(32) - Suc 0)) \<le> uint x"
      by (rule order_trans [of _ 0]) simp_all
    have "int (unat x) < 2 ^ 31"
      using assms by (metis of_nat_less_iff of_nat_numeral of_nat_power)
    then show "uint x < 2 ^ (LENGTH(32) - Suc 0)"
      by simp
  qed
  finally show ?thesis by simp
qed

lemma nat_sint_bound: "nat (sint (y::cint)) < 2 ^ 31"
  using sint_lt [of y] by simp

lemma loop_test:
  fixes x y :: cint
  assumes "unat x \<le> nat (sint y)"
  shows "(x <s y) = (unat x < nat (sint y))"
proof -
  have "unat x < 2 ^ 31"
    using assms nat_sint_bound [of y] by (rule le_less_trans)
  then have "sint x = int (unat x)"
    by (rule sint_small)
  then show ?thesis
    by (simp add: word_sless_alt zless_nat_eq_int_zless)
qed

lemma unat_succ:
  fixes x y :: cint
  assumes "unat x < nat (sint y)"
  shows "unat (x + 1) = Suc (unat x)"
proof -
  have "unat x < 2 ^ 31"
    using assms nat_sint_bound [of y] by (rule less_trans)
  then have "unat x + unat (1::cint) < 2 ^ LENGTH(32)"
    by simp
  then have "unat (x + 1) = unat x + unat (1::cint)"
    by (simp only: unat_add_lem)
  then show ?thesis by simp
qed

lemma below_INT_MAX:
  fixes x y :: cint
  assumes "unat x < nat (sint y)"
  shows "x \<noteq> INT_MAX"
proof
  assume "x = INT_MAX"
  then have "unat x = 2147483647"
    by (simp add: INT_MAX_def)
  with assms nat_sint_bound [of y] show False
    by simp
qed

lemma unat_of_nat_small: "n < 2 ^ 31 \<Longrightarrow> unat (word_of_nat n :: cint) = n"
  by (simp add: unat_of_nat)

lemma sint_of_nat_small: "n < 2 ^ 31 \<Longrightarrow> sint (word_of_nat n :: cint) = int n"
  by (simp add: sint_small unat_of_nat_small)

lemma of_nat_INT_MAX:
  assumes "n < 2 ^ 31"
  shows "(word_of_nat n :: cint) = INT_MAX \<longleftrightarrow> n = 2147483647"
proof
  assume "(word_of_nat n :: cint) = INT_MAX"
  then have "unat (word_of_nat n :: cint) = 2147483647"
    by (simp add: INT_MAX_def)
  with assms show "n = 2147483647"
    by (simp add: unat_of_nat_small)
next
  assume "n = 2147483647"
  then show "(word_of_nat n :: cint) = INT_MAX"
    by (simp add: INT_MAX_def)
qed

subsection \<open>Sums over the thread vector\<close>

lemma sum_list_map_update:
  "k < length ws \<Longrightarrow>
     sum_list (map f (ws[k := w])) + f (ws ! k) = sum_list (map f ws) + (f w :: nat)"
proof (induction ws arbitrary: k)
  case Nil
  then show ?case by simp
next
  case (Cons a ws)
  then show ?case by (cases k) auto
qed

lemma sum_list_bounded:
  "(\<forall>w \<in> set ws. f w \<le> (b::nat)) \<Longrightarrow> sum_list (map f ws) \<le> length ws * b"
  by (induction ws) auto

lemma sum_list_bounded_strict:
  "(\<forall>w \<in> set ws. f w \<le> (b::nat)) \<Longrightarrow> k < length ws \<Longrightarrow> f (ws ! k) < b
     \<Longrightarrow> sum_list (map f ws) < length ws * b"
proof (induction ws arbitrary: k)
  case Nil
  then show ?case by simp
next
  case (Cons a ws)
  show ?case
  proof (cases k)
    case 0
    with Cons.prems have "f a < b" by simp
    moreover have "sum_list (map f ws) \<le> length ws * b"
      using Cons.prems(1) by (intro sum_list_bounded) simp
    ultimately show ?thesis by simp
  next
    case (Suc j)
    with Cons.prems have "sum_list (map f ws) < length ws * b"
      by (intro Cons.IH [of j]) simp_all
    moreover have "f a \<le> b" using Cons.prems(1) by simp
    ultimately show ?thesis by simp
  qed
qed

lemma sum_list_all_equal:
  "(\<forall>w \<in> set ws. f w = (b::nat)) \<Longrightarrow> sum_list (map f ws) = length ws * b"
  by (induction ws) auto

lemma sum_list_positive_elem:
  "0 < sum_list (map f ws) \<Longrightarrow> \<exists>k < length ws. 0 < (f (ws ! k) :: nat)"
proof (induction ws)
  case Nil
  then show ?case by simp
next
  case (Cons a ws)
  show ?case
  proof (cases "0 < f a")
    case True
    then have "0 < f ((a # ws) ! 0)" by simp
    then show ?thesis by blast
  next
    case False
    with Cons.prems have "0 < sum_list (map f ws)" by simp
    then obtain k where "k < length ws" "0 < f (ws ! k)"
      using Cons.IH by blast
    then have "Suc k < length (a # ws)" "0 < f ((a # ws) ! Suc k)" by simp_all
    then show ?thesis by blast
  qed
qed

lemma nth_le_sum_list: "k < length ws \<Longrightarrow> f (ws ! k) \<le> (sum_list (map f ws) :: nat)"
  using elem_le_sum_list [of k "map f ws"] by simp

lemma two_le_sum_list:
  "j < length ws \<Longrightarrow> k < length ws \<Longrightarrow> j \<noteq> k
     \<Longrightarrow> f (ws ! j) + f (ws ! k) \<le> (sum_list (map f ws) :: nat)"
proof (induction ws arbitrary: j k)
  case Nil
  then show ?case by simp
next
  case (Cons a ws)
  show ?case
  proof (cases j)
    case 0
    with Cons.prems obtain k' where k: "k = Suc k'" "k' < length ws"
      by (cases k) auto
    with 0 nth_le_sum_list [of k' ws f] show ?thesis by simp
  next
    case j: (Suc j')
    show ?thesis
    proof (cases k)
      case 0
      with j Cons.prems nth_le_sum_list [of j' ws f] show ?thesis by simp
    next
      case (Suc k')
      with j Cons.prems have "f (ws ! j') + f (ws ! k') \<le> sum_list (map f ws)"
        by (intro Cons.IH) simp_all
      with j Suc show ?thesis by simp
    qed
  qed
qed

subsection \<open>One statement of one worker\<close>

lemma loop_test_iters: "unat x \<le> iters p \<Longrightarrow> (x <s iterations p) = (unat x < iters p)"
  unfolding iters_def by (rule loop_test)

lemma unat_succ_iters: "unat (x::cint) < iters p \<Longrightarrow> unat (x + 1) = Suc (unat x)"
  unfolding iters_def by (rule unat_succ)

lemma below_INT_MAX_iters: "unat (x::cint) < iters p \<Longrightarrow> x \<noteq> INT_MAX"
  unfolding iters_def by (rule below_INT_MAX)

lemma spawn_test: "unat x \<le> nthreads p \<Longrightarrow> (x <s threadCount p) = (unat x < nthreads p)"
  unfolding nthreads_def by (rule loop_test)

lemma unat_succ_nthreads: "unat (x::cint) < nthreads p \<Longrightarrow> unat (x + 1) = Suc (unat x)"
  unfolding nthreads_def by (rule unat_succ)

lemma wstep_wlocal:
  "wstep p s k =
     (case wlocal p (counter s) (mutex_m s) (threads s ! k) of
        Next (c, m, w) \<Rightarrow>
          Next (s\<lparr>counter := c, mutex_m := m, threads := (threads s)[k := w]\<rparr>)
      | Disabled \<Rightarrow> Disabled
      | Undefined \<Rightarrow> Undefined)"
  by (cases "wpc (threads s ! k)") (simp_all add: wstep_def wlocal_def Let_def)

lemma step_local:
  "step p t s =
     (case t of
        Main \<Rightarrow> mstep p s
      | Worker k \<Rightarrow>
          if k < length (threads s)
          then (case wlocal p (counter s) (mutex_m s) (threads s ! k) of
                  Next (c, m, w) \<Rightarrow>
                    Next (s\<lparr>counter := c, mutex_m := m, threads := (threads s)[k := w]\<rparr>)
                | Disabled \<Rightarrow> Disabled
                | Undefined \<Rightarrow> Undefined)
          else Disabled)"
  by (simp add: step_def wstep_wlocal split: tid.split)

lemma step_WorkerE:
  assumes "step p (Worker k) s = Next s'"
  obtains c m w where "k < length (threads s)"
    and "wlocal p (counter s) (mutex_m s) (threads s ! k) = Next (c, m, w)"
    and "s' = s\<lparr>counter := c, mutex_m := m, threads := (threads s)[k := w]\<rparr>"
  using assms by (auto simp: step_local split: if_splits outcome.splits)

lemma after_inc_cases: "after_inc p = ToString \<or> after_inc p = Incr"
  by (cases p) simp_all

lemma wlocal_ok:
  assumes "worker_ok p w" and "wlocal p c m w = Next (c', m', w')"
  shows "worker_ok p w'"
proof (cases "wpc w")
  case Test
  with assms show ?thesis
    by (cases "wi w <s iterations p"; cases "discipline_of p")
      (auto simp: wlocal_def worker_ok_def loop_test_iters body_entry_def loop_exit_def)
next
  case Incr
  with assms show ?thesis
    by (auto simp: wlocal_def worker_ok_def unat_succ_iters split: if_splits)
next
  case Store
  with assms after_inc_cases [of p] show ?thesis
    by (auto simp: wlocal_def worker_ok_def split: if_splits)
next
  case FetchAdd
  with assms after_inc_cases [of p] show ?thesis
    by (auto simp: wlocal_def worker_ok_def split: if_splits)
qed (use assms in \<open>auto simp: wlocal_def worker_ok_def split: if_splits\<close>)

lemma wlocal_incs:
  assumes "worker_ok p w" and "wlocal p c m w = Next (c', m', w')"
  shows "incs w' = incs w + at_increment w"
proof (cases "wpc w")
  case Test
  with assms show ?thesis
    by (cases "wi w <s iterations p"; cases "discipline_of p")
      (auto simp: wlocal_def incs_def at_increment_def body_entry_def loop_exit_def)
next
  case Incr
  with assms show ?thesis
    by (auto simp: wlocal_def worker_ok_def incs_def at_increment_def unat_succ_iters split: if_splits)
next
  case Store
  with assms after_inc_cases [of p] show ?thesis
    by (auto simp: wlocal_def incs_def at_increment_def split: if_splits)
next
  case FetchAdd
  with assms after_inc_cases [of p] show ?thesis
    by (auto simp: wlocal_def incs_def at_increment_def split: if_splits)
qed (use assms in \<open>auto simp: wlocal_def incs_def at_increment_def split: if_splits\<close>)

lemma wlocal_counter:
  assumes "wlocal p c m w = Next (c', m', w')" and "wpc w = Store \<longrightarrow> wtmp w = c"
  shows "c' = c + word_of_nat (at_increment w)"
  using assms by (cases "wpc w") (auto simp: wlocal_def at_increment_def split: if_splits)

lemma wlocal_holding:
  assumes "worker_ok p w" and "wlocal p c m w = Next (c', m', w')"
    and "holding p w \<le> (if m then 1 else 0)"
  shows "holding p w' + (if m then 1 else 0) = holding p w + (if m' then 1 else 0)"
proof (cases "wpc w")
  case Test
  with assms show ?thesis
    by (cases "wi w <s iterations p"; cases "discipline_of p")
      (auto simp: wlocal_def holding_def body_entry_def loop_exit_def)
next
  case Store
  with assms after_inc_cases [of p] show ?thesis
    by (auto simp: wlocal_def holding_def split: if_splits)
next
  case FetchAdd
  with assms after_inc_cases [of p] show ?thesis
    by (auto simp: wlocal_def holding_def worker_ok_def split: if_splits)
next
  case Acquire
  with assms show ?thesis
    by (cases "discipline_of p") (auto simp: wlocal_def holding_def worker_ok_def split: if_splits)
next
  case Release
  with assms show ?thesis
    by (cases "discipline_of p") (auto simp: wlocal_def holding_def worker_ok_def split: if_splits)
qed (use assms in \<open>auto simp: wlocal_def holding_def worker_ok_def split: if_splits\<close>)

lemma wlocal_store_tmp:
  assumes "wlocal p c m w = Next (c', m', w')" and "wpc w' = Store"
  shows "wtmp w' = c'"
  using assms after_inc_cases [of p]
  by (cases "wpc w"; cases "discipline_of p"; cases "wi w <s iterations p")
    (auto simp: wlocal_def body_entry_def loop_exit_def split: if_splits)

subsection \<open>The invariant is kept by every step\<close>

lemma worker_step_invariant:
  assumes inv: "invariant p s" and st: "step p (Worker k) s = Next s'"
  shows "invariant p s'"
proof -
  from st obtain c m w where k: "k < length (threads s)"
    and ws: "wlocal p (counter s) (mutex_m s) (threads s ! k) = Next (c, m, w)"
    and s': "s' = s\<lparr>counter := c, mutex_m := m, threads := (threads s)[k := w]\<rparr>"
    by (rule step_WorkerE)
  let ?ts = "threads s" and ?w0 = "threads s ! k"
  from inv have iw: "inv_workers p s" and ic: "inv_counter p s" and im: "inv_mutex p s"
    and imain: "inv_main p s" and io: "inv_out p s"
    by (simp_all add: invariant_def)
  have mem0: "?w0 \<in> set ?ts" using k by simp
  have ok0: "worker_ok p ?w0" using iw mem0 by (simp add: inv_workers_def)
  have hold0: "holding p ?w0 \<le> (if mutex_m s then 1 else 0)"
    using im nth_le_sum_list [OF k, of "holding p"] by (simp add: inv_mutex_def)
  have tmp0: "wpc ?w0 = Store \<longrightarrow> wtmp ?w0 = counter s"
    using ic mem0 by (simp add: inv_counter_def)
  have running: "wpc ?w0 \<noteq> Finished"
    using ws by (auto simp: wlocal_def)
  have okw: "worker_ok p w" using ok0 ws by (rule wlocal_ok)
  have incs: "incs w = incs ?w0 + at_increment ?w0" using ok0 ws by (rule wlocal_incs)
  have ctr: "c = counter s + word_of_nat (at_increment ?w0)" using ws tmp0 by (rule wlocal_counter)
  have sum_incs: "sum_list (map incs (?ts[k := w])) = sum_list (map incs ?ts) + at_increment ?w0"
    using sum_list_map_update [OF k, of incs w] incs by simp
  have sum_hold: "sum_list (map (holding p) (?ts[k := w])) = (if m then 1 else 0)"
    using sum_list_map_update [OF k, of "holding p" w] wlocal_holding [OF ok0 ws hold0] im
    by (simp add: inv_mutex_def split: if_splits)
  have others: "at_increment ?w0 = 0" if "j < length ?ts" "j \<noteq> k" "wpc (?ts ! j) = Store" for j
  proof (rule ccontr)
    assume "at_increment ?w0 \<noteq> 0"
    moreover have "worker_ok p (?ts ! j)" using iw that(1) by (simp add: inv_workers_def)
    ultimately have "holding p (?ts ! j) = 1" "holding p ?w0 = 1"
      using that(3) ok0 by (cases "discipline_of p"; auto simp: holding_def at_increment_def worker_ok_def split: if_splits)+
    with two_le_sum_list [OF that(1) k that(2), of "holding p"] im show False
      by (simp add: inv_mutex_def split: if_splits)
  qed
  have "inv_workers p s'"
    unfolding inv_workers_def
  proof
    fix x assume "x \<in> set (threads s')"
    then have "x \<in> insert w (set ?ts)"
      using set_update_subset_insert [of ?ts k w] by (auto simp: s')
    with okw iw show "worker_ok p x" by (auto simp: inv_workers_def)
  qed
  moreover have "inv_counter p s'"
  proof -
    have "counter s' = word_of_nat (sum_list (map incs (threads s')))"
      using ic ctr sum_incs by (simp add: s' inv_counter_def)
    moreover have "sum_list (map incs (threads s')) < 2 ^ 31" if L: "discipline_of p = Locking"
    proof (cases "at_increment ?w0 = 0")
      case True
      with ic L sum_incs show ?thesis by (simp add: s' inv_counter_def)
    next
      case False
      with ok0 L have pc: "wpc ?w0 = Store" by (auto simp: at_increment_def worker_ok_def split: if_splits)
      with ws have "wtmp ?w0 \<noteq> INT_MAX" by (auto simp: wlocal_def split: if_splits)
      with tmp0 pc ic have "(word_of_nat (sum_list (map incs ?ts)) :: cint) \<noteq> INT_MAX"
        by (simp add: inv_counter_def)
      moreover have lt: "sum_list (map incs ?ts) < 2 ^ 31" using ic L by (simp add: inv_counter_def)
      ultimately have "sum_list (map incs ?ts) \<noteq> 2147483647"
        by (simp add: of_nat_INT_MAX)
      with lt sum_incs show ?thesis by (simp add: s' at_increment_def)
    qed
    moreover have "\<forall>x \<in> set (threads s'). wpc x = Store \<longrightarrow> wtmp x = counter s'"
    proof (intro ballI impI)
      fix x assume "x \<in> set (threads s')" and St: "wpc x = Store"
      then obtain j where j: "j < length ?ts" "x = ?ts[k := w] ! j"
        by (auto simp: s' in_set_conv_nth)
      show "wtmp x = counter s'"
      proof (cases "j = k")
        case True
        with j k have "x = w" by simp
        with ws St show ?thesis using wlocal_store_tmp [OF ws] by (simp add: s')
      next
        case False
        with j have x: "x = ?ts ! j" by simp
        with St others [OF j(1) False] have "at_increment ?w0 = 0" by simp
        with ctr have "c = counter s" by simp
        moreover have "wtmp x = counter s" using ic St x j(1) by (simp add: inv_counter_def)
        ultimately show ?thesis by (simp add: s')
      qed
    qed
    ultimately show ?thesis by (simp add: inv_counter_def)
  qed
  moreover have "inv_mutex p s'"
    using sum_hold by (simp add: inv_mutex_def s')
  moreover have not_joined: "mpc s \<notin> {Report, Cxx20, Return, Exited}"
    using imain mem0 running by (auto simp: inv_main_def)
  have "inv_main p s'"
  proof -
    have "wpc (?ts[k := w] ! j) = Finished"
      if "mpc s = Join n" "j < n" "j < length ?ts" for n j
    proof -
      from imain that have "wpc (?ts ! j) = Finished" by (simp add: inv_main_def)
      with running have "j \<noteq> k" by auto
      with \<open>wpc (?ts ! j) = Finished\<close> show ?thesis by simp
    qed
    with imain not_joined show ?thesis
      by (simp add: inv_main_def s')
  qed
  moreover have "inv_out p s'"
    using io not_joined by (auto simp: inv_out_def printed_def s' split: mpc.splits)
  ultimately show ?thesis by (simp add: invariant_def)
qed

lemma new_worker_ok: "worker_ok p (new_worker p)"
  by (cases "discipline_of p") (auto simp: worker_ok_def new_worker_def worker_entry_def)

lemma new_worker_incs: "incs (new_worker p) = 0"
  by (cases "discipline_of p") (auto simp: incs_def new_worker_def worker_entry_def)

lemma new_worker_holding: "holding p (new_worker p) = 0"
  by (cases "discipline_of p") (auto simp: holding_def new_worker_def worker_entry_def)

lemma new_worker_pc: "wpc (new_worker p) \<noteq> Store"
  by (cases "discipline_of p") (auto simp: new_worker_def worker_entry_def)

lemma report_printed:
  "banner p @ [label p @ to_string c] =
     (if after_report p = Cxx20 then banner p @ [label p @ to_string c]
      else banner p @ [label p @ to_string c] @ cxx20 p)"
  by (cases p) simp_all

lemma after_report_cases: "after_report p = Cxx20 \<or> after_report p = Return"
  by (cases p) simp_all

lemma main_step_invariant:
  assumes inv: "invariant p s" and st: "step p Main s = Next s'"
  shows "invariant p s'"
proof -
  from inv have iw: "inv_workers p s" and ic: "inv_counter p s" and im: "inv_mutex p s"
    and imain: "inv_main p s" and io: "inv_out p s"
    by (simp_all add: invariant_def)
  from st have ms: "mstep p s = Next s'" by (simp add: step_local)
  from imain have le: "unat (main_i s) \<le> nthreads p" by (simp add: inv_main_def)
  show ?thesis
  proof (cases "mpc s")
    case Banner
    with ms have s': "s' = s\<lparr>cout := cout s @ banner p, mpc := Spawn\<rparr>"
      by (simp add: mstep_def)
    with Banner iw ic im imain io show ?thesis
      by (simp add: invariant_def inv_workers_def inv_counter_def inv_mutex_def inv_main_def
          inv_out_def printed_def)
  next
    case Spawn
    show ?thesis
    proof (cases "main_i s <s threadCount p")
      case True
      with le have lt: "unat (main_i s) < nthreads p" by (simp add: spawn_test)
      from True Spawn ms
      have s': "s' = s\<lparr>threads := threads s @ [new_worker p], main_i := main_i s + 1\<rparr>"
        by (simp add: mstep_def)
      have "inv_workers p s'"
        using iw new_worker_ok by (auto simp: inv_workers_def s')
      moreover have "inv_counter p s'"
        using ic new_worker_incs new_worker_pc by (auto simp: inv_counter_def s')
      moreover have "inv_mutex p s'"
        using im new_worker_holding by (simp add: inv_mutex_def s')
      moreover have "inv_main p s'"
        using imain Spawn lt by (simp add: inv_main_def s' unat_succ_nthreads)
      moreover have "inv_out p s'"
        using io Spawn by (simp add: inv_out_def printed_def s')
      ultimately show ?thesis by (simp add: invariant_def)
    next
      case False
      with le have eq: "unat (main_i s) = nthreads p" by (simp add: spawn_test)
      from False Spawn ms have s': "s' = s\<lparr>mpc := Join 0\<rparr>"
        by (simp add: mstep_def)
      with Spawn eq iw ic im imain io show ?thesis
        by (simp add: invariant_def inv_workers_def inv_counter_def inv_mutex_def inv_main_def
            inv_out_def printed_def)
    qed
  next
    case (Join k)
    show ?thesis
    proof (cases "k < length (threads s)")
      case True
      with Join ms have fin: "wpc (threads s ! k) = Finished" and s': "s' = s\<lparr>mpc := Join (Suc k)\<rparr>"
        by (auto simp: mstep_def split: if_splits)
      have "wpc (threads s ! j) = Finished" if "j < Suc k" "j < length (threads s)" for j
        using that fin imain Join by (cases "j = k") (auto simp: inv_main_def)
      with Join iw ic im imain io show ?thesis
        by (simp add: invariant_def inv_workers_def inv_counter_def inv_mutex_def inv_main_def
            inv_out_def printed_def s')
    next
      case False
      with Join ms have s': "s' = s\<lparr>mpc := Report\<rparr>"
        by (simp add: mstep_def)
      have "\<forall>w \<in> set (threads s). wpc w = Finished"
        using False imain Join by (auto simp: inv_main_def in_set_conv_nth)
      with Join iw ic im imain io show ?thesis
        by (simp add: invariant_def inv_workers_def inv_counter_def inv_mutex_def inv_main_def
            inv_out_def printed_def s')
    qed
  next
    case Report
    with ms
    have s': "s' = s\<lparr>cout := cout s @ [label p @ to_string (counter s)], mpc := after_report p\<rparr>"
      by (simp add: mstep_def)
    have "inv_out p s'"
      using io Report after_report_cases [of p]
      by (cases p) (auto simp: inv_out_def printed_def s')
    moreover have "inv_main p s'"
      using imain Report after_report_cases [of p] by (auto simp: inv_main_def s')
    ultimately show ?thesis
      using iw ic im
      by (simp add: invariant_def inv_workers_def inv_counter_def inv_mutex_def s')
  next
    case Cxx20
    with ms have s': "s' = s\<lparr>cout := cout s @ cxx20 p, mpc := Return\<rparr>"
      by (simp add: mstep_def)
    with Cxx20 iw ic im imain io show ?thesis
      by (simp add: invariant_def inv_workers_def inv_counter_def inv_mutex_def inv_main_def
          inv_out_def printed_def)
  next
    case Return
    with ms have s': "s' = s\<lparr>exit_code := Some 0, mpc := Exited\<rparr>"
      by (simp add: mstep_def)
    with Return iw ic im imain io show ?thesis
      by (simp add: invariant_def inv_workers_def inv_counter_def inv_mutex_def inv_main_def
          inv_out_def printed_def)
  next
    case Exited
    with ms show ?thesis by (simp add: mstep_def)
  qed
qed

lemma step_invariant: "invariant p s \<Longrightarrow> step p t s = Next s' \<Longrightarrow> invariant p s'"
  by (cases t) (auto intro: main_step_invariant worker_step_invariant)

lemma init_invariant: "invariant p (init p)"
  by (cases p)
    (simp_all add: invariant_def inv_workers_def inv_counter_def inv_mutex_def inv_main_def
      inv_out_def printed_def init_def)

lemma exec_invariant: "invariant p s \<Longrightarrow> exec p sched s = Next s' \<Longrightarrow> invariant p s'"
proof (induction sched arbitrary: s)
  case Nil
  then show ?case by simp
next
  case (Cons t sched)
  from Cons.prems(2) obtain s1 where "step p t s = Next s1" "exec p sched s1 = Next s'"
    by (auto split: outcome.splits)
  with Cons.prems(1) Cons.IH [of s1] show ?case
    by (auto dest: step_invariant)
qed

lemma exec_append:
  "exec p (xs @ ys) s =
     (case exec p xs s of Next s1 \<Rightarrow> exec p ys s1 | Disabled \<Rightarrow> Disabled | Undefined \<Rightarrow> Undefined)"
  by (induction xs arbitrary: s) (auto split: outcome.splits)

lemma run_invariant: "run p sched = Next s \<Longrightarrow> invariant p s"
  unfolding run_def using init_invariant by (rule exec_invariant)

subsection \<open>The state after the last join\<close>

lemma finished_incs: "worker_ok p w \<Longrightarrow> wpc w = Finished \<Longrightarrow> incs w = iters p"
  by (simp add: worker_ok_def incs_def)

lemma incs_le_iters:
  assumes "worker_ok p w"
  shows "incs w \<le> iters p"
proof (cases "wpc w = ToString \<or> wpc w = Incr")
  case True
  with assms have "unat (wi w) < iters p" by (auto simp: worker_ok_def)
  with True show ?thesis by (simp add: incs_def)
next
  case False
  moreover from assms have "unat (wi w) \<le> iters p" by (simp add: worker_ok_def)
  ultimately show ?thesis by (simp add: incs_def)
qed

lemma finished_holding: "wpc w = Finished \<Longrightarrow> holding p w = 0"
  by (simp add: holding_def)

lemma joined_facts:
  assumes inv: "invariant p s" and fin: "\<forall>w \<in> set (threads s). wpc w = Finished"
    and len: "length (threads s) = nthreads p"
  shows "counter s = word_of_nat (nthreads p * iters p)"
    and "\<not> mutex_m s"
    and "discipline_of p = Locking \<longrightarrow> nthreads p * iters p < 2 ^ 31"
proof -
  from inv have iw: "inv_workers p s" and ic: "inv_counter p s" and im: "inv_mutex p s"
    by (simp_all add: invariant_def)
  have "\<forall>w \<in> set (threads s). incs w = iters p"
    using iw fin by (auto simp: inv_workers_def finished_incs)
  then have sum: "sum_list (map incs (threads s)) = nthreads p * iters p"
    using len sum_list_all_equal [of "threads s" incs "iters p"] by simp
  with ic show "counter s = word_of_nat (nthreads p * iters p)"
    and "discipline_of p = Locking \<longrightarrow> nthreads p * iters p < 2 ^ 31"
    by (simp_all add: inv_counter_def)
  have "sum_list (map (holding p) (threads s)) = length (threads s) * 0"
    using fin by (intro sum_list_all_equal) (simp add: finished_holding)
  with im show "\<not> mutex_m s"
    by (simp add: inv_mutex_def split: if_splits)
qed

lemma exited_facts:
  assumes inv: "invariant p s" and ex: "mpc s = Exited"
  shows "counter s = word_of_nat (nthreads p * iters p)"
    and "cout s = banner p @ [label p @ to_string (counter s)] @ cxx20 p"
    and "exit_code s = Some 0"
    and "discipline_of p = Locking \<longrightarrow> nthreads p * iters p < 2 ^ 31"
    and "length (threads s) = nthreads p"
    and "\<forall>w \<in> set (threads s). wpc w = Finished"
    and "\<not> mutex_m s"
proof -
  from inv have imain: "inv_main p s" and io: "inv_out p s"
    by (simp_all add: invariant_def)
  from imain ex show fin: "\<forall>w \<in> set (threads s). wpc w = Finished"
    and len: "length (threads s) = nthreads p"
    by (simp_all add: inv_main_def)
  from joined_facts [OF inv fin len]
  show "counter s = word_of_nat (nthreads p * iters p)"
    and "discipline_of p = Locking \<longrightarrow> nthreads p * iters p < 2 ^ 31"
    and "\<not> mutex_m s"
    by simp_all
  from io ex show "cout s = banner p @ [label p @ to_string (counter s)] @ cxx20 p"
    and "exit_code s = Some 0"
    by (simp_all add: inv_out_def printed_def)
qed

subsection \<open>Every step lowers the bound on the remaining steps\<close>

lemma wlocal_remaining:
  assumes "worker_ok p w" and "wlocal p c m w = Next (c', m', w')"
  shows "wremaining p w' < wremaining p w"
proof (cases "wpc w")
  case Test
  with assms show ?thesis
    by (cases "wi w <s iterations p"; cases "discipline_of p")
      (auto simp: wlocal_def wremaining_def wrank_def body_entry_def loop_exit_def)
next
  case Incr
  with assms have "unat (wi w) < iters p" "w' = w\<lparr>wi := wi w + 1, wpc := Test\<rparr>"
    by (auto simp: wlocal_def worker_ok_def split: if_splits)
  with Incr show ?thesis
    by (simp add: wremaining_def wrank_def unat_succ_iters)
next
  case Store
  with assms after_inc_cases [of p] show ?thesis
    by (auto simp: wlocal_def wremaining_def wrank_def split: if_splits)
next
  case FetchAdd
  with assms after_inc_cases [of p] show ?thesis
    by (auto simp: wlocal_def wremaining_def wrank_def split: if_splits)
qed (use assms in \<open>auto simp: wlocal_def wremaining_def wrank_def split: if_splits\<close>)

lemma new_worker_remaining: "wremaining p (new_worker p) \<le> 6 * iters p + 6"
  by (cases "discipline_of p") (auto simp: wremaining_def wrank_def new_worker_def worker_entry_def)

lemma step_remaining:
  assumes inv: "invariant p s" and st: "step p t s = Next s'"
  shows "remaining p s' < remaining p s"
proof (cases t)
  case (Worker k)
  with st obtain c m w where k: "k < length (threads s)"
    and ws: "wlocal p (counter s) (mutex_m s) (threads s ! k) = Next (c, m, w)"
    and s': "s' = s\<lparr>counter := c, mutex_m := m, threads := (threads s)[k := w]\<rparr>"
    by (auto elim: step_WorkerE)
  from inv k have "worker_ok p (threads s ! k)"
    by (simp add: invariant_def inv_workers_def)
  then have "wremaining p w < wremaining p (threads s ! k)"
    using ws by (rule wlocal_remaining)
  with sum_list_map_update [OF k, of "wremaining p" w]
  have "sum_list (map (wremaining p) ((threads s)[k := w])) < sum_list (map (wremaining p) (threads s))"
    by linarith
  moreover have "mremaining p s' = mremaining p s"
    by (simp add: mremaining_def s' split: mpc.split)
  ultimately show ?thesis
    by (simp add: remaining_def s')
next
  case Main
  with st have ms: "mstep p s = Next s'" by (simp add: step_local)
  from inv have imain: "inv_main p s" by (simp add: invariant_def)
  then have le: "unat (main_i s) \<le> nthreads p" by (simp add: inv_main_def)
  show ?thesis
  proof (cases "mpc s")
    case Spawn
    show ?thesis
    proof (cases "main_i s <s threadCount p")
      case True
      with le have lt: "unat (main_i s) < nthreads p" by (simp add: spawn_test)
      from True Spawn ms
      have s': "s' = s\<lparr>threads := threads s @ [new_worker p], main_i := main_i s + 1\<rparr>"
        by (simp add: mstep_def)
      from lt obtain d where d: "nthreads p - unat (main_i s) = Suc d"
        by (cases "nthreads p - unat (main_i s)") auto
      then have d': "nthreads p - Suc (unat (main_i s)) = d" by simp
      from lt have u: "unat (main_i s + 1) = Suc (unat (main_i s))" by (rule unat_succ_nthreads)
      show ?thesis
        using new_worker_remaining [of p] Spawn
        by (simp add: remaining_def mremaining_def s' u d d')
    next
      case False
      with Spawn ms have "s' = s\<lparr>mpc := Join 0\<rparr>" by (simp add: mstep_def)
      with Spawn show ?thesis by (simp add: remaining_def mremaining_def)
    qed
  next
    case (Join k)
    show ?thesis
    proof (cases "k < length (threads s)")
      case True
      with Join ms have s': "s' = s\<lparr>mpc := Join (Suc k)\<rparr>"
        by (auto simp: mstep_def split: if_splits)
      from imain Join have "length (threads s) = nthreads p" by (simp add: inv_main_def)
      with True have "nthreads p - Suc k < nthreads p - k" by simp
      with Join show ?thesis by (simp add: remaining_def mremaining_def s')
    next
      case False
      with Join ms have "s' = s\<lparr>mpc := Report\<rparr>" by (simp add: mstep_def)
      with Join show ?thesis by (simp add: remaining_def mremaining_def)
    qed
  next
    case Report
    with ms after_report_cases [of p] show ?thesis
      by (auto simp: mstep_def remaining_def mremaining_def)
  qed (use ms in \<open>auto simp: mstep_def remaining_def mremaining_def\<close>)
qed

lemma exec_remaining:
  "invariant p s \<Longrightarrow> exec p sched s = Next s' \<Longrightarrow> length sched + remaining p s' \<le> remaining p s"
proof (induction sched arbitrary: s)
  case Nil
  then show ?case by simp
next
  case (Cons t sched)
  from Cons.prems(2) obtain s1 where s1: "step p t s = Next s1" "exec p sched s1 = Next s'"
    by (auto split: outcome.splits)
  from Cons.prems(1) s1(1) have "invariant p s1" "remaining p s1 < remaining p s"
    by (auto intro: step_invariant step_remaining)
  with Cons.IH [of s1] s1(2) show ?case by simp
qed

subsection \<open>No overflow, no deadlock, and a run to the end\<close>

lemma store_defined:
  assumes inv: "invariant p s" and fits: "nthreads p * iters p < 2 ^ 31"
    and k: "k < length (threads s)" and pc: "wpc (threads s ! k) = Store"
  shows "wtmp (threads s ! k) \<noteq> INT_MAX"
proof -
  from inv have iw: "inv_workers p s" and ic: "inv_counter p s" and imain: "inv_main p s"
    by (simp_all add: invariant_def)
  let ?n = "sum_list (map incs (threads s))"
  have "\<forall>w \<in> set (threads s). incs w \<le> iters p"
    using iw by (simp add: inv_workers_def incs_le_iters)
  moreover have "incs (threads s ! k) < iters p"
    using iw k pc by (auto simp: inv_workers_def worker_ok_def incs_def)
  ultimately have "?n < length (threads s) * iters p"
    using k by (intro sum_list_bounded_strict [where k = k]) auto
  also have "\<dots> \<le> nthreads p * iters p"
    using imain by (simp add: inv_main_def)
  finally have lt: "?n < nthreads p * iters p" .
  with fits have "?n < 2 ^ 31" "?n \<noteq> 2147483647" by simp_all
  then have "(word_of_nat ?n :: cint) \<noteq> INT_MAX"
    by (simp add: of_nat_INT_MAX)
  moreover have "wtmp (threads s ! k) = counter s"
    using ic k pc by (simp add: inv_counter_def)
  ultimately show ?thesis
    using ic by (simp add: inv_counter_def)
qed

lemma wlocal_defined:
  assumes "worker_ok p w" and "wpc w = Store \<longrightarrow> wtmp w \<noteq> INT_MAX"
  shows "wlocal p c m w \<noteq> Undefined"
  using assms
  by (cases "wpc w") (auto simp: wlocal_def worker_ok_def dest: below_INT_MAX_iters)

lemma wlocal_enabled:
  assumes "wlocal p c m w \<noteq> Undefined" and "wpc w \<noteq> Finished" and "wpc w = Acquire \<longrightarrow> \<not> m"
  shows "\<exists>r. wlocal p c m w = Next r"
  using assms by (cases "wpc w") (auto simp: wlocal_def split: if_splits)

lemma mstep_defined: "mstep p s \<noteq> Undefined"
  by (cases "mpc s") (auto simp: mstep_def)

lemma step_defined:
  assumes inv: "invariant p s"
    and fits: "discipline_of p = Locking \<longrightarrow> nthreads p * iters p < 2 ^ 31"
  shows "step p t s \<noteq> Undefined"
proof (cases t)
  case Main
  then show ?thesis by (simp add: step_local mstep_defined)
next
  case (Worker k)
  show ?thesis
  proof (cases "k < length (threads s)")
    case True
    with inv have ok: "worker_ok p (threads s ! k)"
      by (simp add: invariant_def inv_workers_def)
    have "wtmp (threads s ! k) \<noteq> INT_MAX" if "wpc (threads s ! k) = Store"
    proof -
      from ok that have "discipline_of p = Locking"
        by (cases "discipline_of p") (auto simp: worker_ok_def)
      with fits inv True that show ?thesis by (intro store_defined) auto
    qed
    with ok have "wlocal p (counter s) (mutex_m s) (threads s ! k) \<noteq> Undefined"
      by (intro wlocal_defined) auto
    with Worker True show ?thesis
      by (auto simp: step_local split: outcome.splits)
  next
    case False
    with Worker show ?thesis by (simp add: step_local)
  qed
qed

lemma exec_defined:
  "invariant p s \<Longrightarrow> (discipline_of p = Locking \<longrightarrow> nthreads p * iters p < 2 ^ 31)
     \<Longrightarrow> exec p sched s \<noteq> Undefined"
proof (induction sched arbitrary: s)
  case Nil
  then show ?case by simp
next
  case (Cons t sched)
  show ?case
  proof (cases "step p t s")
    case (Next s1)
    with Cons.prems have "invariant p s1" by (auto intro: step_invariant)
    with Cons.IH [of s1] Cons.prems(2) Next show ?thesis by simp
  next
    case Undefined
    with step_defined [OF Cons.prems] show ?thesis by simp
  qed simp
qed

lemma worker_enabled:
  assumes inv: "invariant p s"
    and fits: "discipline_of p = Locking \<longrightarrow> nthreads p * iters p < 2 ^ 31"
    and k: "k < length (threads s)" and run: "wpc (threads s ! k) \<noteq> Finished"
    and free: "wpc (threads s ! k) = Acquire \<longrightarrow> \<not> mutex_m s"
  shows "\<exists>s'. step p (Worker k) s = Next s'"
proof -
  have "step p (Worker k) s \<noteq> Undefined"
    using inv fits by (rule step_defined)
  with k have "wlocal p (counter s) (mutex_m s) (threads s ! k) \<noteq> Undefined"
    by (auto simp: step_local split: outcome.splits)
  from wlocal_enabled [OF this run free]
  obtain r where "wlocal p (counter s) (mutex_m s) (threads s ! k) = Next r" ..
  with k show ?thesis
    by (cases r) (simp add: step_local)
qed

lemma progress:
  assumes inv: "invariant p s"
    and fits: "discipline_of p = Locking \<longrightarrow> nthreads p * iters p < 2 ^ 31"
    and live: "mpc s \<noteq> Exited"
  shows "\<exists>t s'. step p t s = Next s'"
proof (cases "\<exists>k. mpc s = Join k \<and> k < length (threads s) \<and> wpc (threads s ! k) \<noteq> Finished")
  case False
  with live have "\<exists>s'. mstep p s = Next s'"
    by (cases "mpc s") (auto simp: mstep_def)
  then have "\<exists>s'. step p Main s = Next s'" by (simp add: step_local)
  then show ?thesis by blast
next
  case True
  then obtain k where k: "k < length (threads s)" and run: "wpc (threads s ! k) \<noteq> Finished"
    by blast
  show ?thesis
  proof (cases "wpc (threads s ! k) = Acquire \<and> mutex_m s")
    case False
    with worker_enabled [OF inv fits k run] show ?thesis by blast
  next
    case True
    from inv have "sum_list (map (holding p) (threads s)) = (if mutex_m s then 1 else 0)"
      by (simp add: invariant_def inv_mutex_def)
    with True have "0 < sum_list (map (holding p) (threads s))" by simp
    then obtain j where j: "j < length (threads s)" "0 < holding p (threads s ! j)"
      using sum_list_positive_elem by blast
    then have "wpc (threads s ! j) \<noteq> Finished" "wpc (threads s ! j) \<noteq> Acquire"
      by (auto simp: holding_def split: if_splits)
    with worker_enabled [OF inv fits j(1)] show ?thesis by blast
  qed
qed

lemma can_complete:
  assumes fits: "discipline_of p = Locking \<longrightarrow> nthreads p * iters p < 2 ^ 31"
  shows "invariant p s \<Longrightarrow> \<exists>sched s'. exec p sched s = Next s' \<and> mpc s' = Exited"
proof (induction "remaining p s" arbitrary: s rule: less_induct)
  case less
  show ?case
  proof (cases "mpc s = Exited")
    case True
    then have "exec p [] s = Next s \<and> mpc s = Exited" by simp
    then show ?thesis by blast
  next
    case False
    with progress [OF less.prems fits] obtain t s1 where st: "step p t s = Next s1"
      by blast
    with less.prems have "invariant p s1" "remaining p s1 < remaining p s"
      by (auto intro: step_invariant step_remaining)
    with less.hyps obtain sched s' where "exec p sched s1 = Next s'" "mpc s' = Exited"
      by blast
    with st have "exec p (t # sched) s = Next s' \<and> mpc s' = Exited" by simp
    then show ?thesis by blast
  qed
qed

subsection \<open>Counting increments along a schedule\<close>

lemma mstep_shared:
  assumes "mstep p s = Next s'"
  shows "counter s' = counter s" and "mutex_m s' = mutex_m s"
  using assms by (cases "mpc s"; auto simp: mstep_def split: if_splits)+

lemma mstep_threads:
  assumes "mstep p s = Next s'"
  shows "threads s' = threads s \<or> threads s' = threads s @ [new_worker p]"
  using assms by (cases "mpc s") (auto simp: mstep_def split: if_splits)

text \<open>The increments of the whole run, counted exactly.\<close>

lemma step_increments:
  assumes inv: "invariant p s" and st: "step p t s = Next s'"
  shows "sum_list (map incs (threads s')) =
           sum_list (map incs (threads s)) +
             (if next_pc t s = Some FetchAdd \<or> next_pc t s = Some Store then 1 else 0)"
proof (cases t)
  case Main
  with st have "mstep p s = Next s'" by (simp add: step_local)
  from mstep_threads [OF this] Main show ?thesis
    by (auto simp: next_pc_def new_worker_incs)
next
  case (Worker k)
  with st obtain c m w where k: "k < length (threads s)"
    and ws: "wlocal p (counter s) (mutex_m s) (threads s ! k) = Next (c, m, w)"
    and s': "s' = s\<lparr>counter := c, mutex_m := m, threads := (threads s)[k := w]\<rparr>"
    by (auto elim: step_WorkerE)
  from inv k have "worker_ok p (threads s ! k)"
    by (simp add: invariant_def inv_workers_def)
  then have "incs w = incs (threads s ! k) + at_increment (threads s ! k)"
    using ws by (rule wlocal_incs)
  with sum_list_map_update [OF k, of incs w] Worker k show ?thesis
    by (auto simp: s' next_pc_def at_increment_def)
qed

lemma exec_increments:
  "invariant p s \<Longrightarrow> exec p sched s = Next s' \<Longrightarrow>
     sum_list (map incs (threads s')) =
       sum_list (map incs (threads s)) +
         count_steps (\<lambda>t c. c = Some FetchAdd \<or> c = Some Store) p sched s"
proof (induction sched arbitrary: s)
  case Nil
  then show ?case by simp
next
  case (Cons t sched)
  from Cons.prems(2) obtain s1 where s1: "step p t s = Next s1" "exec p sched s1 = Next s'"
    by (auto split: outcome.splits)
  with Cons.prems(1) have "invariant p s1" by (auto intro: step_invariant)
  from Cons.IH [OF this s1(2)] step_increments [OF Cons.prems(1) s1(1)] s1(1)
  show ?case by simp
qed

lemma run_increments:
  assumes "run p sched = Next s"
  shows "sum_list (map incs (threads s)) = increments p sched"
  using exec_increments [OF init_invariant, of p sched s] assms
  by (simp add: run_def increments_def init_def)

text \<open>The same for one worker.\<close>

lemma step_increments_by:
  assumes inv: "invariant p s" and st: "step p t s = Next s'"
  shows "incs_of k s' =
           incs_of k s +
             (if t = Worker k \<and> (next_pc t s = Some FetchAdd \<or> next_pc t s = Some Store)
              then 1 else 0)"
proof (cases t)
  case Main
  with st have "mstep p s = Next s'" by (simp add: step_local)
  from mstep_threads [OF this] Main show ?thesis
    by (auto simp: incs_of_def new_worker_incs nth_append)
next
  case (Worker j)
  with st obtain c m w where j: "j < length (threads s)"
    and ws: "wlocal p (counter s) (mutex_m s) (threads s ! j) = Next (c, m, w)"
    and s': "s' = s\<lparr>counter := c, mutex_m := m, threads := (threads s)[j := w]\<rparr>"
    by (auto elim: step_WorkerE)
  from inv j have "worker_ok p (threads s ! j)"
    by (simp add: invariant_def inv_workers_def)
  then have "incs w = incs (threads s ! j) + at_increment (threads s ! j)"
    using ws by (rule wlocal_incs)
  with Worker j show ?thesis
    by (cases "j = k") (auto simp: s' incs_of_def next_pc_def at_increment_def)
qed

lemma exec_increments_by:
  "invariant p s \<Longrightarrow> exec p sched s = Next s' \<Longrightarrow>
     incs_of k s' =
       incs_of k s +
         count_steps (\<lambda>t c. t = Worker k \<and> (c = Some FetchAdd \<or> c = Some Store)) p sched s"
proof (induction sched arbitrary: s)
  case Nil
  then show ?case by simp
next
  case (Cons t sched)
  from Cons.prems(2) obtain s1 where s1: "step p t s = Next s1" "exec p sched s1 = Next s'"
    by (auto split: outcome.splits)
  with Cons.prems(1) have "invariant p s1" by (auto intro: step_invariant)
  from Cons.IH [OF this s1(2)] step_increments_by [OF Cons.prems(1) s1(1), of k] s1(1)
  show ?case by simp
qed

lemma run_increments_by:
  assumes "run p sched = Next s" and "k < length (threads s)"
  shows "incs (threads s ! k) = increments_by p k sched"
  using exec_increments_by [OF init_invariant, of p sched s k] assms
  by (simp add: run_def increments_by_def incs_of_def init_def)

text \<open>Programs on the atomic counter never write it in two steps and never lock.\<close>

lemma atomic_count_zero:
  assumes at: "discipline_of p = Atomic"
    and P: "\<And>t c. P t c \<Longrightarrow> c = Some Store \<or> c = Some Acquire \<or> c = Some Release \<or> c = Some Load"
  shows "invariant p s \<Longrightarrow> count_steps P p sched s = 0"
proof (induction sched arbitrary: s)
  case Nil
  then show ?case by simp
next
  case (Cons t sched)
  show ?case
  proof (cases "step p t s")
    case (Next s1)
    with Cons.prems have "invariant p s1" by (auto intro: step_invariant)
    then have "count_steps P p sched s1 = 0" by (rule Cons.IH)
    moreover have "\<not> P t (next_pc t s)"
    proof
      assume "P t (next_pc t s)"
      from P [OF this] obtain k where "t = Worker k" "k < length (threads s)"
        "wpc (threads s ! k) \<in> {Store, Acquire, Release, Load}"
        by (auto simp: next_pc_def split: tid.splits if_splits)
      with Cons.prems at show False
        by (auto simp: invariant_def inv_workers_def worker_ok_def)
    qed
    ultimately show ?thesis using Next by simp
  qed simp_all
qed

lemma count_steps_disj:
  assumes "\<And>t c. \<not> (P t c \<and> Q t c)"
  shows "count_steps (\<lambda>t c. P t c \<or> Q t c) p sched s = count_steps P p sched s + count_steps Q p sched s"
  using assms by (induction sched arbitrary: s) (auto split: outcome.splits)

subsection \<open>The lock\<close>

lemma wlocal_not_acquire:
  assumes "wlocal p c m w = Next (c', m', w')"
  shows "wpc w' \<noteq> Acquire"
  using assms after_inc_cases [of p]
  by (cases "wpc w"; cases "discipline_of p"; cases "wi w <s iterations p")
    (auto simp: wlocal_def body_entry_def loop_exit_def split: if_splits)

lemma wlocal_finished:
  assumes "wlocal p c m w = Next (c', m', w')" and "discipline_of p = Locking"
  shows "wpc w' = Finished \<longleftrightarrow> wpc w = Release"
  using assms after_inc_cases [of p]
  by (cases "wpc w"; cases "wi w <s iterations p")
    (auto simp: wlocal_def body_entry_def loop_exit_def split: if_splits)

lemma step_acquired:
  assumes L: "discipline_of p = Locking" and st: "step p t s = Next s'"
  shows "acquired k s' =
           acquired k s + (if t = Worker k \<and> next_pc t s = Some Acquire then 1 else 0)"
proof (cases t)
  case Main
  with st have "mstep p s = Next s'" by (simp add: step_local)
  from mstep_threads [OF this] L show ?thesis
    by (auto simp: Main acquired_def nth_append new_worker_def worker_entry_def less_Suc_eq
        split: if_splits)
next
  case (Worker j)
  with st obtain c m w where j: "j < length (threads s)"
    and ws: "wlocal p (counter s) (mutex_m s) (threads s ! j) = Next (c, m, w)"
    and s': "s' = s\<lparr>counter := c, mutex_m := m, threads := (threads s)[j := w]\<rparr>"
    by (auto elim: step_WorkerE)
  from wlocal_not_acquire [OF ws] Worker j show ?thesis
    by (cases "j = k") (auto simp: s' acquired_def next_pc_def)
qed

lemma step_released:
  assumes L: "discipline_of p = Locking" and st: "step p t s = Next s'"
  shows "released k s' =
           released k s + (if t = Worker k \<and> next_pc t s = Some Release then 1 else 0)"
proof (cases t)
  case Main
  with st have "mstep p s = Next s'" by (simp add: step_local)
  from mstep_threads [OF this] L show ?thesis
    by (auto simp: Main released_def nth_append new_worker_def worker_entry_def less_Suc_eq
        split: if_splits)
next
  case (Worker j)
  with st obtain c m w where j: "j < length (threads s)"
    and ws: "wlocal p (counter s) (mutex_m s) (threads s ! j) = Next (c, m, w)"
    and s': "s' = s\<lparr>counter := c, mutex_m := m, threads := (threads s)[j := w]\<rparr>"
    by (auto elim: step_WorkerE)
  have "wpc (threads s ! j) \<noteq> Finished" using ws by (auto simp: wlocal_def)
  with wlocal_finished [OF ws L] Worker j show ?thesis
    by (cases "j = k") (auto simp: s' released_def next_pc_def)
qed

lemma exec_acquired:
  assumes L: "discipline_of p = Locking"
  shows "exec p sched s = Next s' \<Longrightarrow>
     acquired k s' = acquired k s + count_steps (\<lambda>t c. t = Worker k \<and> c = Some Acquire) p sched s"
proof (induction sched arbitrary: s)
  case Nil
  then show ?case by simp
next
  case (Cons t sched)
  from Cons.prems obtain s1 where s1: "step p t s = Next s1" "exec p sched s1 = Next s'"
    by (auto split: outcome.splits)
  from Cons.IH [OF s1(2)] step_acquired [OF L s1(1), of k] s1(1)
  show ?case by simp
qed

lemma exec_released:
  assumes L: "discipline_of p = Locking"
  shows "exec p sched s = Next s' \<Longrightarrow>
     released k s' = released k s + count_steps (\<lambda>t c. t = Worker k \<and> c = Some Release) p sched s"
proof (induction sched arbitrary: s)
  case Nil
  then show ?case by simp
next
  case (Cons t sched)
  from Cons.prems obtain s1 where s1: "step p t s = Next s1" "exec p sched s1 = Next s'"
    by (auto split: outcome.splits)
  from Cons.IH [OF s1(2)] step_released [OF L s1(1), of k] s1(1)
  show ?case by simp
qed

lemma holder_excludes:
  assumes inv: "invariant p s" and k: "k < length (threads s)"
    and hold: "holding p (threads s ! k) = 1" and jk: "j \<noteq> k"
  shows "mutex_m s" and "step p (Worker j) s = Disabled"
proof -
  from inv have im: "sum_list (map (holding p) (threads s)) = (if mutex_m s then 1 else 0)"
    by (simp add: invariant_def inv_mutex_def)
  with nth_le_sum_list [OF k, of "holding p"] hold show m: "mutex_m s"
    by (simp split: if_splits)
  show "step p (Worker j) s = Disabled"
  proof (cases "j < length (threads s)")
    case True
    from two_le_sum_list [OF True k jk, of "holding p"] im hold m
    have "holding p (threads s ! j) = 0" by simp
    moreover from hold have "discipline_of p = Locking"
      by (auto simp: holding_def split: if_splits)
    ultimately have "wpc (threads s ! j) = Acquire \<or> wpc (threads s ! j) = Finished"
      by (auto simp: holding_def split: if_splits)
    with True m show ?thesis
      by (auto simp: step_local wlocal_def)
  next
    case False
    then show ?thesis by (simp add: step_local)
  qed
qed

subsection \<open>Runs\<close>

lemma digits_small: "n < 10 \<Longrightarrow> digits n = [digit n]"
  by (simp add: digits.simps)

lemma digits_large: "\<not> n < 10 \<Longrightarrow> digits n = digits (n div 10) @ [digit (n mod 10)]"
  by (subst digits.simps) simp

lemmas eval_defs =
  final_count_def completes_def run_def init_def step_def mstep_def wstep_def Let_def new_worker_def
  worker_entry_def body_entry_def loop_exit_def word_sless_alt INT_MAX_def to_string_def
  digits_small digits_large digit_def next_pc_def
  sequential_schedule_def reverse_schedule_def interleaved_schedule_def

lemma final_count_iff:
  "final_count p sched = Some v \<longleftrightarrow> (\<exists>s. completes p sched s \<and> v = sint (counter s))"
  by (auto simp: final_count_def completes_def split: outcome.splits)

lemma completes_invariant: "completes p sched s \<Longrightarrow> invariant p s"
  by (auto simp: completes_def intro: run_invariant)

lemma completes_counter:
  assumes "completes p sched s"
  shows "counter s = word_of_nat (nthreads p * iters p)"
proof -
  from assms have "invariant p s" by (rule completes_invariant)
  moreover from assms have "mpc s = Exited" by (simp add: completes_def)
  ultimately show ?thesis by (rule exited_facts(1))
qed

lemma exists_complete:
  assumes "discipline_of p = Locking \<longrightarrow> nthreads p * iters p < 2 ^ 31"
  shows "\<exists>sched s. completes p sched s"
  using can_complete [OF assms init_invariant] by (simp add: completes_def run_def)

lemma extend_complete:
  assumes fits: "discipline_of p = Locking \<longrightarrow> nthreads p * iters p < 2 ^ 31"
    and r: "run p sched = Next s"
  shows "\<exists>rest s'. completes p (sched @ rest) s'"
proof -
  from r have "invariant p s" by (rule run_invariant)
  from can_complete [OF fits this] obtain rest s' where "exec p rest s = Next s'" "mpc s' = Exited"
    by blast
  with r have "completes p (sched @ rest) s'"
    by (simp add: completes_def run_def exec_append)
  then show ?thesis by blast
qed

lemma run_defined:
  assumes "discipline_of p = Locking \<longrightarrow> nthreads p * iters p < 2 ^ 31"
  shows "run p sched \<noteq> Undefined"
  unfolding run_def using init_invariant assms by (rule exec_defined)

lemma run_length:
  assumes "run p sched = Next s"
  shows "length sched \<le> remaining p (init p)"
  using exec_remaining [OF init_invariant, of p sched s] assms by (simp add: run_def)

lemma product_fits:
  fixes tc it :: cint
  assumes "0 \<le> sint tc" and "0 \<le> sint it" and "sint tc * sint it \<le> 2147483647"
  shows "nat (sint tc) * nat (sint it) < 2 ^ 31"
    and "int (nat (sint tc) * nat (sint it)) = sint tc * sint it"
proof -
  show eq: "int (nat (sint tc) * nat (sint it)) = sint tc * sint it"
    using assms(1,2) by simp
  with assms(3) have "int (nat (sint tc) * nat (sint it)) < 2 ^ 31" by simp
  then show "nat (sint tc) * nat (sint it) < 2 ^ 31"
    by (metis of_nat_less_iff of_nat_numeral of_nat_power)
qed

lemma nthreads_simps [simp]:
  "nthreads (MutexMain tc it) = nat (sint tc)"
  "nthreads (AtomicMain tc it) = nat (sint tc)"
  "nthreads (FeatureTest std) = 5"
  by (simp_all add: nthreads_def)

lemma iters_simps [simp]:
  "iters (MutexMain tc it) = nat (sint it)"
  "iters (AtomicMain tc it) = nat (sint it)"
  "iters (FeatureTest std) = 1000"
  by (simp_all add: iters_def)

subsection \<open>Facts about runs used by the claims\<close>

lemma run_counter:
  assumes "run p sched = Next s"
  shows "counter s = word_of_nat (increments p sched)"
  using run_invariant [OF assms] run_increments [OF assms]
  by (simp add: invariant_def inv_counter_def)

lemma run_increments_le:
  assumes "run p sched = Next s"
  shows "increments p sched \<le> nthreads p * iters p"
proof -
  from assms have inv: "invariant p s" by (rule run_invariant)
  then have "\<forall>w \<in> set (threads s). incs w \<le> iters p"
    by (simp add: invariant_def inv_workers_def incs_le_iters)
  then have "sum_list (map incs (threads s)) \<le> length (threads s) * iters p"
    by (rule sum_list_bounded)
  also have "\<dots> \<le> nthreads p * iters p"
    using inv by (simp add: invariant_def inv_main_def)
  finally show ?thesis by (simp add: run_increments [OF assms])
qed

lemma step_counter:
  assumes inv: "invariant p s" and st: "step p t s = Next s'"
  shows "counter s' =
           counter s + (if next_pc t s = Some FetchAdd \<or> next_pc t s = Some Store then 1 else 0)"
proof (cases t)
  case Main
  with st have "mstep p s = Next s'" by (simp add: step_local)
  from mstep_shared(1) [OF this] Main show ?thesis by (simp add: next_pc_def)
next
  case (Worker k)
  with st obtain c m w where k: "k < length (threads s)"
    and ws: "wlocal p (counter s) (mutex_m s) (threads s ! k) = Next (c, m, w)"
    and s': "s' = s\<lparr>counter := c, mutex_m := m, threads := (threads s)[k := w]\<rparr>"
    by (auto elim: step_WorkerE)
  from inv k have "wpc (threads s ! k) = Store \<longrightarrow> wtmp (threads s ! k) = counter s"
    by (simp add: invariant_def inv_counter_def)
  with ws have "c = counter s + word_of_nat (at_increment (threads s ! k))"
    by (rule wlocal_counter)
  with Worker k show ?thesis
    by (auto simp: s' next_pc_def at_increment_def)
qed

lemma atomic_pc:
  assumes "invariant p s" and "discipline_of p = Atomic"
  shows "next_pc t s \<noteq> Some Store" and "next_pc t s \<noteq> Some Acquire"
    and "next_pc t s \<noteq> Some Release" and "next_pc t s \<noteq> Some Load"
  using assms
  by (auto simp: next_pc_def invariant_def inv_workers_def worker_ok_def split: tid.splits)

lemma atomic_unlocked:
  assumes "invariant p s" and "discipline_of p = Atomic"
  shows "\<not> mutex_m s"
proof -
  have "sum_list (map (holding p) (threads s)) = length (threads s) * 0"
    using assms(2) by (intro sum_list_all_equal) (simp add: holding_def)
  with assms(1) show ?thesis
    by (simp add: invariant_def inv_mutex_def split: if_splits)
qed

lemma run_acquires:
  assumes "discipline_of p = Locking" and "run p sched = Next s"
  shows "acquires p k sched = acquired k s"
  using exec_acquired [OF assms(1), of sched "init p" s k] assms(2)
  by (simp add: run_def acquires_def acquired_def init_def)

lemma run_releases:
  assumes "discipline_of p = Locking" and "run p sched = Next s"
  shows "releases p k sched = released k s"
  using exec_released [OF assms(1), of sched "init p" s k] assms(2)
  by (simp add: run_def releases_def released_def init_def)

lemma sum_list_map_mset:
  "mset ws = mset vs \<Longrightarrow> sum_list (map f ws) = (sum_list (map f vs) :: nat)"
proof -
  assume "mset ws = mset vs"
  then have "mset (map f ws) = mset (map f vs)" by simp
  then have "sum_mset (mset (map f ws)) = sum_mset (mset (map f vs))" by (rule arg_cong)
  then show ?thesis by (simp only: sum_mset_sum_list)
qed

lemma permuted_invariant:
  assumes inv: "invariant p s" and j: "mpc s = Spawn \<or> mpc s = Join 0"
    and perm: "mset ws = mset (threads s)"
  shows "invariant p (s\<lparr>threads := ws\<rparr>)"
proof -
  from perm have set: "set ws = set (threads s)" by (rule mset_eq_setD)
  from perm have len: "length ws = length (threads s)" by (rule mset_eq_length)
  have sum: "sum_list (map f ws) = sum_list (map f (threads s))" for f :: "worker \<Rightarrow> nat"
    using perm by (rule sum_list_map_mset)
  from inv have "inv_workers p (s\<lparr>threads := ws\<rparr>)"
    by (simp add: invariant_def inv_workers_def set)
  moreover from inv have "inv_counter p (s\<lparr>threads := ws\<rparr>)"
    by (simp add: invariant_def inv_counter_def set sum)
  moreover from inv have "inv_mutex p (s\<lparr>threads := ws\<rparr>)"
    by (simp add: invariant_def inv_mutex_def sum)
  moreover from inv have "inv_main p s" by (simp add: invariant_def)
  with j have "inv_main p (s\<lparr>threads := ws\<rparr>)"
    by (cases "mpc s") (simp_all add: inv_main_def len)
  moreover from inv have "inv_out p s" by (simp add: invariant_def)
  with j have "inv_out p (s\<lparr>threads := ws\<rparr>)"
    by (cases "mpc s") (simp_all add: inv_out_def printed_def)
  ultimately show ?thesis by (simp add: invariant_def)
qed

lemma to_string_reference: "to_string 100000000 = ''100000000''"
  by (simp add: to_string_def digits_small digits_large digit_def)

lemma reference_fits:
  assumes "p = mutex_main \<or> p = atomic_main"
  shows "nthreads p = 100" and "iters p = 1000000"
    and "discipline_of p = Locking \<longrightarrow> nthreads p * iters p < 2 ^ 31"
  using assms by (auto simp: mutex_main_def atomic_main_def)

lemma reference_printed:
  assumes "p = mutex_main \<or> p = atomic_main"
  shows "banner p = []" and "cxx20 p = []" and "label p = ''Counter: ''"
  using assms by (auto simp: mutex_main_def atomic_main_def)





lemma run_counter_exact:
  assumes fits: "nthreads p * iters p < 2 ^ 31" and r: "run p sched = Next s"
  shows "sint (counter s) = int (increments p sched)"
    and "increments p sched \<le> nthreads p * iters p"
proof -
  show le: "increments p sched \<le> nthreads p * iters p"
    using r by (rule run_increments_le)
  from le fits have "increments p sched < 2 ^ 31" by (rule le_less_trans)
  then have "sint (word_of_nat (increments p sched) :: cint) = int (increments p sched)"
    by (rule sint_of_nat_small)
  then show "sint (counter s) = int (increments p sched)"
    by (simp only: run_counter [OF r])
qed

text \<open>The schedule of the first enabled thread runs every program to its end.\<close>

lemma find_holds: "find P xs = Some x \<Longrightarrow> P x"
  by (induction xs) (auto split: if_splits)

lemma first_enabled_Some:
  assumes "step p t s = Next s'"
  shows "\<exists>t'. first_enabled p s = Some t' \<and> enabled p s t'"
proof -
  have "t \<in> set (Main # map Worker [0..<length (threads s)])"
  proof (cases t)
    case Main
    then show ?thesis by simp
  next
    case (Worker k)
    with assms have "k < length (threads s)"
      by (auto simp: step_local split: if_splits)
    with Worker show ?thesis by simp
  qed
  moreover from assms have "enabled p s t" by (simp add: enabled_def)
  ultimately have "first_enabled p s \<noteq> None"
    unfolding first_enabled_def find_None_iff by blast
  then obtain t' where t': "first_enabled p s = Some t'" by blast
  then have "enabled p s t'"
    unfolding first_enabled_def by (rule find_holds)
  with t' show ?thesis by blast
qed

lemma remaining_zero:
  assumes "remaining p s = 0"
  shows "mpc s = Exited"
  using assms by (cases "mpc s") (simp_all add: remaining_def mremaining_def)

lemma first_enabled_completes:
  assumes fits: "discipline_of p = Locking \<longrightarrow> nthreads p * iters p < 2 ^ 31"
  shows "invariant p s \<Longrightarrow> remaining p s \<le> n \<Longrightarrow>
           \<exists>s'. exec p (first_enabled_from p n s) s = Next s' \<and> mpc s' = Exited"
proof (induction n arbitrary: s)
  case 0
  then have "mpc s = Exited" by (simp add: remaining_zero)
  then show ?case by simp
next
  case (Suc n)
  show ?case
  proof (cases "mpc s = Exited")
    case True
    show ?thesis
    proof (cases "first_enabled p s")
      case None
      with True show ?thesis by simp
    next
      case (Some t)
      then have "enabled p s t" unfolding first_enabled_def by (rule find_holds)
      then obtain s1 where st: "step p t s = Next s1"
        by (auto simp: enabled_def split: outcome.splits)
      from Suc.prems(1) st have i1: "invariant p s1" and "remaining p s1 < remaining p s"
        by (auto intro: step_invariant step_remaining)
      with Suc.prems(2) have "remaining p s1 \<le> n" by simp
      from Suc.IH [OF i1 this] Some st show ?thesis by simp
    qed
  next
    case False
    from progress [OF Suc.prems(1) fits False] obtain t0 s0 where "step p t0 s = Next s0"
      by blast
    from first_enabled_Some [OF this] obtain t where t: "first_enabled p s = Some t"
      and "enabled p s t" by blast
    then obtain s1 where st: "step p t s = Next s1"
      by (auto simp: enabled_def split: outcome.splits)
    from Suc.prems(1) st have i1: "invariant p s1" and "remaining p s1 < remaining p s"
      by (auto intro: step_invariant step_remaining)
    with Suc.prems(2) have "remaining p s1 \<le> n" by simp
    from Suc.IH [OF i1 this] t st show ?thesis by simp
  qed
qed

lemma canonical_completes:
  assumes "discipline_of p = Locking \<longrightarrow> nthreads p * iters p < 2 ^ 31"
  shows "\<exists>s. completes p (canonical_schedule p) s"
  using first_enabled_completes [OF assms init_invariant order_refl]
  by (simp add: completes_def run_def canonical_schedule_def)

lemma first_enabled_from_pos:
  "0 < n \<Longrightarrow> first_enabled_from p n s =
     (case first_enabled p s of
        None \<Rightarrow> []
      | Some t \<Rightarrow>
          (case step p t s of
             Next s' \<Rightarrow> t # first_enabled_from p (n - 1) s'
           | Disabled \<Rightarrow> []
           | Undefined \<Rightarrow> []))"
  by (cases n) (auto split: option.splits outcome.splits)

text \<open>The schedule it gives for two atomic workers of one iteration each.\<close>

lemma canonical_schedule_example:
  "canonical_schedule (AtomicMain 2 1) =
     [Main, Main, Main, Worker 0, Worker 0, Worker 0, Worker 0, Worker 0, Main,
      Worker 1, Worker 1, Worker 1, Worker 1, Worker 1, Main, Main, Main, Main]"
  by (simp add: canonical_schedule_def remaining_def mremaining_def first_enabled_from_pos
      first_enabled_def enabled_def eval_defs upt_rec [of _ "Suc _"] upt_rec [of _ "numeral _"] upt_rec [of _ "length _"])

section \<open>The claims\<close>

text \<open>
  Claim C1, as amended. For \<^verbatim>\<open>threadCount >= 1\<close> and \<^verbatim>\<open>iterations >= 0\<close> whose product fits
  a 32-bit \<^verbatim>\<open>int\<close>, under the mutex program and under the atomic program alike: every
  run that completes returns exactly \<^verbatim>\<open>threadCount * iterations\<close>, which is also the
  number of increments the workers have executed (none is lost); no schedule meets
  undefined behaviour; no schedule runs for more than a fixed number of steps; and
  every run can be continued to a completed one.
\<close>

theorem final_count_is_product:
  assumes prog: "p = MutexMain tc it \<or> p = AtomicMain tc it"
    and tc: "1 \<le> sint tc" and it: "0 \<le> sint it"
    and fits: "sint tc * sint it \<le> 2147483647"
  shows "(\<forall>sched v. final_count p sched = Some v \<longrightarrow> v = sint tc * sint it) \<and>
         (\<forall>sched s. completes p sched s \<longrightarrow> int (increments p sched) = sint tc * sint it) \<and>
         (\<forall>sched. run p sched \<noteq> Undefined) \<and>
         (\<forall>sched s. run p sched = Next s \<longrightarrow>
            length sched \<le> remaining p (init p) \<and>
            (\<exists>rest. final_count p (sched @ rest) = Some (sint tc * sint it)))"
proof -
  from prog have n: "nthreads p = nat (sint tc)" "iters p = nat (sint it)" by auto
  from tc have tc0: "0 \<le> sint tc" by simp
  have lt: "nthreads p * iters p < 2 ^ 31"
    and eq: "int (nthreads p * iters p) = sint tc * sint it"
    unfolding n using product_fits [OF tc0 it fits] by blast+
  have val: "sint (counter s) = sint tc * sint it" if "completes p sched s" for sched s
  proof -
    have "sint (counter s) = int (nthreads p * iters p)"
      unfolding completes_counter [OF that] using lt by (rule sint_of_nat_small)
    then show ?thesis by (simp only: eq)
  qed
  have "v = sint tc * sint it" if "final_count p sched = Some v" for sched v
    using that val by (auto simp: final_count_iff)
  moreover have "int (increments p sched) = sint tc * sint it" if c: "completes p sched s" for sched s
  proof -
    from c have "run p sched = Next s" by (simp add: completes_def)
    then have "increments p sched = sum_list (map incs (threads s))"
      by (simp add: run_increments)
    also have "int \<dots> = sint tc * sint it"
    proof -
      from c have inv: "invariant p s" by (rule completes_invariant)
      from c have ex: "mpc s = Exited" by (simp add: completes_def)
      have "\<forall>w \<in> set (threads s). incs w = iters p"
        using exited_facts(6) [OF inv ex] inv by (auto simp: invariant_def inv_workers_def finished_incs)
      then have "sum_list (map incs (threads s)) = nthreads p * iters p"
        using exited_facts(5) [OF inv ex] sum_list_all_equal [of "threads s" incs "iters p"] by simp
      with eq show ?thesis by simp
    qed
    finally show ?thesis .
  qed
  moreover have "run p sched \<noteq> Undefined" for sched
    using lt by (intro run_defined) simp
  moreover have "\<exists>rest. final_count p (sched @ rest) = Some (sint tc * sint it)"
    if "run p sched = Next s" for sched s
  proof -
    from extend_complete [OF _ that] lt obtain rest s' where c: "completes p (sched @ rest) s'"
      by blast
    with val [OF c] have "final_count p (sched @ rest) = Some (sint tc * sint it)"
      by (auto simp: final_count_iff)
    then show ?thesis ..
  qed
  ultimately show ?thesis
    using run_length by blast
qed

theorem final_count_is_product_witness:
  "1 \<le> sint (2::cint) \<and> 0 \<le> sint (1::cint) \<and> sint (2::cint) * sint (1::cint) \<le> 2147483647 \<and>
   final_count (MutexMain 2 1) sequential_schedule = Some 2 \<and>
   final_count (AtomicMain 2 1) interleaved_schedule = Some 2 \<and>
   int (increments (MutexMain 2 1) sequential_schedule) = 2 \<and>
   int (increments (AtomicMain 2 1) interleaved_schedule) = 2"
proof -
  have h: "1 \<le> sint (2::cint)" "0 \<le> sint (1::cint)" "sint (2::cint) * sint (1::cint) \<le> 2147483647"
    by simp_all
  have m: "completes (MutexMain 2 1) sequential_schedule
     \<lparr>counter = 2, mutex_m = False,
      threads = [\<lparr>wpc = Finished, wi = 1, wtmp = 0, memeSmth = ''1''\<rparr>,
                 \<lparr>wpc = Finished, wi = 1, wtmp = 1, memeSmth = ''2''\<rparr>],
      mpc = Exited, main_i = 2, cout = [''Counter: 2''], exit_code = Some 0\<rparr>"
    by (simp add: eval_defs)
  have a: "completes (AtomicMain 2 1) interleaved_schedule
     \<lparr>counter = 2, mutex_m = False,
      threads = [\<lparr>wpc = Finished, wi = 1, wtmp = 0, memeSmth = ''1''\<rparr>,
                 \<lparr>wpc = Finished, wi = 1, wtmp = 0, memeSmth = ''2''\<rparr>],
      mpc = Exited, main_i = 2, cout = [''Counter: 2''], exit_code = Some 0\<rparr>"
    by (simp add: eval_defs)
  from m a
    final_count_is_product [of "MutexMain 2 1" 2 1, OF _ h]
    final_count_is_product [of "AtomicMain 2 1" 2 1, OF _ h]
  show ?thesis
    by (auto simp: final_count_iff)
qed

text \<open>
  Claim C1 as the specification states it, without the bound on the product, fails
  for \<^verbatim>\<open>threadCount = 2\<close> and \<^verbatim>\<open>iterations = 1073741824\<close> on the atomic program: the
  \<^verbatim>\<open>std::atomic<int>\<close> wraps around. The run under the schedule of the first enabled
  thread returns \<open>-2147483648\<close>, and no run returns the product \<open>2147483648\<close>.
\<close>

theorem atomic_count_wraps:
  "final_count (AtomicMain 2 1073741824) (canonical_schedule (AtomicMain 2 1073741824)) =
     Some (- 2147483648) \<and>
   sint (2::cint) * sint (1073741824::cint) = 2147483648 \<and>
   \<not> (\<exists>sched. final_count (AtomicMain 2 1073741824) sched = Some 2147483648)"
proof -
  let ?p = "AtomicMain 2 1073741824"
  have val: "sint (counter s) = - 2147483648" if "completes ?p sched s" for sched s
    using completes_counter [OF that] by simp
  obtain s where c: "completes ?p (canonical_schedule ?p) s"
    using canonical_completes [of ?p] by auto
  then have "final_count ?p (canonical_schedule ?p) = Some (sint (counter s))"
    unfolding final_count_iff by blast
  with val [OF c] have A: "final_count ?p (canonical_schedule ?p) = Some (- 2147483648)"
    by simp
  have B: "sint (2::cint) * sint (1073741824::cint) = 2147483648" by simp
  have C: "\<not> (\<exists>sched. final_count ?p sched = Some 2147483648)"
  proof
    assume "\<exists>sched. final_count ?p sched = Some 2147483648"
    then obtain sched s where "completes ?p sched s" and "2147483648 = sint (counter s)"
      unfolding final_count_iff by blast
    with val [of sched s] show False by simp
  qed
  from A B C show ?thesis by (intro conjI)
qed

text \<open>
  Claim C2. In a program on the \<^verbatim>\<open>std::atomic<int>\<close>, after any schedule whatever:
  the counter is the number of fetch-and-add steps executed so far (as a 32-bit
  value), these are all the increments there are, no lock operation has been
  executed and the mutex is free; and any next step changes the counter only if it
  is a fetch-and-add, then by exactly one, and is never a lock, an unlock or one
  half of a two-step increment.
\<close>

theorem atomic_increments_never_lost:
  assumes at: "discipline_of p = Atomic" and r: "run p sched = Next s"
  shows "counter s = word_of_nat (fetch_adds p sched) \<and>
         increments p sched = fetch_adds p sched \<and>
         lock_operations p sched = 0 \<and>
         \<not> mutex_m s \<and>
         (\<forall>t s'. step p t s = Next s' \<longrightarrow>
            counter s' = counter s + (if next_pc t s = Some FetchAdd then 1 else 0) \<and>
            next_pc t s \<noteq> Some Acquire \<and> next_pc t s \<noteq> Some Release \<and>
            next_pc t s \<noteq> Some Load \<and> next_pc t s \<noteq> Some Store)"
proof -
  from r have inv: "invariant p s" by (rule run_invariant)
  have "increments p sched =
          fetch_adds p sched + count_steps (\<lambda>t c. c = Some Store) p sched (init p)"
    unfolding increments_def fetch_adds_def by (rule count_steps_disj) simp
  moreover have "count_steps (\<lambda>t c. c = Some Store) p sched (init p) = 0"
    using at _ init_invariant by (rule atomic_count_zero) simp
  ultimately have eq: "increments p sched = fetch_adds p sched" by simp
  have "lock_operations p sched = 0"
    unfolding lock_operations_def using at _ init_invariant by (rule atomic_count_zero) auto
  moreover have "counter s = word_of_nat (fetch_adds p sched)"
    using run_counter [OF r] eq by simp
  moreover have "\<not> mutex_m s" using inv at by (rule atomic_unlocked)
  moreover have "counter s' = counter s + (if next_pc t s = Some FetchAdd then 1 else 0)"
    if "step p t s = Next s'" for t s'
    using step_counter [OF inv that] atomic_pc(1) [OF inv at, of t] by simp
  ultimately show ?thesis
    using eq atomic_pc [OF inv at] by blast
qed

theorem atomic_increments_never_lost_witness:
  "discipline_of (AtomicMain 2 1) = Atomic \<and>
   run (AtomicMain 2 1) interleaved_schedule =
     Next \<lparr>counter = 2, mutex_m = False,
      threads = [\<lparr>wpc = Finished, wi = 1, wtmp = 0, memeSmth = ''1''\<rparr>,
                 \<lparr>wpc = Finished, wi = 1, wtmp = 0, memeSmth = ''2''\<rparr>],
      mpc = Exited, main_i = 2, cout = [''Counter: 2''], exit_code = Some 0\<rparr> \<and>
   fetch_adds (AtomicMain 2 1) interleaved_schedule = 2 \<and>
   lock_operations (AtomicMain 2 1) interleaved_schedule = 0"
proof -
  have h: "discipline_of (AtomicMain 2 1) = Atomic" by simp
  have r: "run (AtomicMain 2 1) interleaved_schedule =
     Next \<lparr>counter = 2, mutex_m = False,
      threads = [\<lparr>wpc = Finished, wi = 1, wtmp = 0, memeSmth = ''1''\<rparr>,
                 \<lparr>wpc = Finished, wi = 1, wtmp = 0, memeSmth = ''2''\<rparr>],
      mpc = Exited, main_i = 2, cout = [''Counter: 2''], exit_code = Some 0\<rparr>"
    by (simp add: eval_defs)
  have f: "fetch_adds (AtomicMain 2 1) interleaved_schedule = 2"
    by (simp add: fetch_adds_def eval_defs)
  from atomic_increments_never_lost [OF h r] h r f show ?thesis by simp
qed

text \<open>
  Claim C3. In the mutex program, after any schedule whatever, for every started
  worker: it has locked the mutex exactly once unless it still waits at its
  \<^verbatim>\<open>lock_guard\<close>, and then it has executed no increment; it has unlocked it exactly
  once if it has finished and never otherwise; while it is between the two, the
  mutex is held and no other worker can take any step at all, so that the loops of
  two workers never interleave; when it unlocks, its loop has run all its
  iterations; a worker that waits while the mutex is free can take it and enter its
  loop, and a worker at the end of its loop can release it and finish. When the run
  has completed, all \<^verbatim>\<open>threadCount\<close> workers have locked exactly once, run all their
  iterations and unlocked exactly once; and (the product fitting an \<^verbatim>\<open>int\<close>) every
  run can be continued to such a completed run.
\<close>

theorem lock_held_for_whole_loop:
  assumes r: "run (MutexMain tc it) sched = Next s"
  shows "(\<forall>k < length (threads s).
            acquires (MutexMain tc it) k sched = (if wpc (threads s ! k) = Acquire then 0 else 1) \<and>
            releases (MutexMain tc it) k sched = (if wpc (threads s ! k) = Finished then 1 else 0) \<and>
            (wpc (threads s ! k) = Acquire \<longrightarrow> increments_by (MutexMain tc it) k sched = 0) \<and>
            (wpc (threads s ! k) \<noteq> Acquire \<and> wpc (threads s ! k) \<noteq> Finished \<longrightarrow>
               mutex_m s \<and> (\<forall>j. j \<noteq> k \<longrightarrow> step (MutexMain tc it) (Worker j) s = Disabled)) \<and>
            (wpc (threads s ! k) = Release \<or> wpc (threads s ! k) = Finished \<longrightarrow>
               int (increments_by (MutexMain tc it) k sched) = max 0 (sint it)) \<and>
            (wpc (threads s ! k) = Acquire \<and> \<not> mutex_m s \<longrightarrow>
               (\<exists>s'. step (MutexMain tc it) (Worker k) s = Next s' \<and> mutex_m s' \<and>
                  wpc (threads s' ! k) = Test)) \<and>
            (wpc (threads s ! k) = Release \<longrightarrow>
               (\<exists>s'. step (MutexMain tc it) (Worker k) s = Next s' \<and> \<not> mutex_m s' \<and>
                  wpc (threads s' ! k) = Finished))) \<and>
         (mpc s = Exited \<longrightarrow>
            length (threads s) = nthreads (MutexMain tc it) \<and>
            (\<forall>k < nthreads (MutexMain tc it).
               acquires (MutexMain tc it) k sched = 1 \<and>
               releases (MutexMain tc it) k sched = 1 \<and>
               int (increments_by (MutexMain tc it) k sched) = max 0 (sint it))) \<and>
         (nthreads (MutexMain tc it) * iters (MutexMain tc it) < 2 ^ 31 \<longrightarrow>
            (\<exists>rest s'. completes (MutexMain tc it) (sched @ rest) s' \<and>
               (\<forall>k < nthreads (MutexMain tc it).
                  acquires (MutexMain tc it) k (sched @ rest) = 1 \<and>
                  releases (MutexMain tc it) k (sched @ rest) = 1)))"
proof -
  let ?p = "MutexMain tc it"
  have L: "discipline_of ?p = Locking" by simp
  have pos: "acquires ?p k sched' = (if wpc (threads s' ! k) = Acquire then 0 else 1) \<and>
            releases ?p k sched' = (if wpc (threads s' ! k) = Finished then 1 else 0) \<and>
            (wpc (threads s' ! k) = Acquire \<longrightarrow> increments_by ?p k sched' = 0) \<and>
            (wpc (threads s' ! k) \<noteq> Acquire \<and> wpc (threads s' ! k) \<noteq> Finished \<longrightarrow>
               mutex_m s' \<and> (\<forall>j. j \<noteq> k \<longrightarrow> step ?p (Worker j) s' = Disabled)) \<and>
            (wpc (threads s' ! k) = Release \<or> wpc (threads s' ! k) = Finished \<longrightarrow>
               int (increments_by ?p k sched') = max 0 (sint it)) \<and>
            (wpc (threads s' ! k) = Acquire \<and> \<not> mutex_m s' \<longrightarrow>
               (\<exists>s''. step ?p (Worker k) s' = Next s'' \<and> mutex_m s'' \<and>
                  wpc (threads s'' ! k) = Test)) \<and>
            (wpc (threads s' ! k) = Release \<longrightarrow>
               (\<exists>s''. step ?p (Worker k) s' = Next s'' \<and> \<not> mutex_m s'' \<and>
                  wpc (threads s'' ! k) = Finished))"
    if r': "run ?p sched' = Next s'" and k: "k < length (threads s')" for sched' s' k
  proof -
    from r' have inv: "invariant ?p s'" by (rule run_invariant)
    from inv k have ok: "worker_ok ?p (threads s' ! k)"
      by (simp add: invariant_def inv_workers_def)
    have n: "increments_by ?p k sched' = incs (threads s' ! k)"
      using run_increments_by [OF r' k] by simp
    have "acquires ?p k sched' = (if wpc (threads s' ! k) = Acquire then 0 else 1)"
      using run_acquires [OF L r', of k] k by (simp add: acquired_def)
    moreover have "releases ?p k sched' = (if wpc (threads s' ! k) = Finished then 1 else 0)"
      using run_releases [OF L r', of k] k by (simp add: released_def)
    moreover have "increments_by ?p k sched' = 0" if "wpc (threads s' ! k) = Acquire"
      using that ok n by (simp add: worker_ok_def incs_def)
    moreover have "mutex_m s' \<and> (\<forall>j. j \<noteq> k \<longrightarrow> step ?p (Worker j) s' = Disabled)"
      if "wpc (threads s' ! k) \<noteq> Acquire \<and> wpc (threads s' ! k) \<noteq> Finished"
    proof -
      from that have h: "holding ?p (threads s' ! k) = 1" by (simp add: holding_def)
      have "mutex_m s'"
        using holder_excludes(1) [OF inv k h, of "Suc k"] by simp
      moreover have "step ?p (Worker j) s' = Disabled" if "j \<noteq> k" for j
        using inv k h that by (rule holder_excludes(2))
      ultimately show ?thesis by blast
    qed
    moreover have "int (increments_by ?p k sched') = max 0 (sint it)"
      if "wpc (threads s' ! k) = Release \<or> wpc (threads s' ! k) = Finished"
      using that ok n by (auto simp: worker_ok_def incs_def)
    moreover have "\<exists>s''. step ?p (Worker k) s' = Next s'' \<and> mutex_m s'' \<and>
                  wpc (threads s'' ! k) = Test"
      if "wpc (threads s' ! k) = Acquire \<and> \<not> mutex_m s'"
      using that k by (simp add: step_def wstep_def Let_def)
    moreover have "\<exists>s''. step ?p (Worker k) s' = Next s'' \<and> \<not> mutex_m s'' \<and>
                  wpc (threads s'' ! k) = Finished"
      if "wpc (threads s' ! k) = Release"
      using that k by (simp add: step_def wstep_def Let_def)
    ultimately show ?thesis by blast
  qed
  have compl: "length (threads s') = nthreads ?p \<and>
            (\<forall>k < nthreads ?p.
               acquires ?p k sched' = 1 \<and> releases ?p k sched' = 1 \<and>
               int (increments_by ?p k sched') = max 0 (sint it))"
    if r': "run ?p sched' = Next s'" and ex: "mpc s' = Exited" for sched' s'
  proof -
    from r' have inv: "invariant ?p s'" by (rule run_invariant)
    have len: "length (threads s') = nthreads ?p" using inv ex by (rule exited_facts(5))
    have fin: "\<forall>w \<in> set (threads s'). wpc w = Finished" using inv ex by (rule exited_facts(6))
    have "acquires ?p k sched' = 1 \<and> releases ?p k sched' = 1 \<and>
               int (increments_by ?p k sched') = max 0 (sint it)"
      if "k < nthreads ?p" for k
    proof -
      from that len have k: "k < length (threads s')" by simp
      with fin have "wpc (threads s' ! k) = Finished" by simp
      with pos [OF r' k] show ?thesis by simp
    qed
    with len show ?thesis by blast
  qed
  have A: "\<forall>k < length (threads s).
            acquires ?p k sched = (if wpc (threads s ! k) = Acquire then 0 else 1) \<and>
            releases ?p k sched = (if wpc (threads s ! k) = Finished then 1 else 0) \<and>
            (wpc (threads s ! k) = Acquire \<longrightarrow> increments_by ?p k sched = 0) \<and>
            (wpc (threads s ! k) \<noteq> Acquire \<and> wpc (threads s ! k) \<noteq> Finished \<longrightarrow>
               mutex_m s \<and> (\<forall>j. j \<noteq> k \<longrightarrow> step ?p (Worker j) s = Disabled)) \<and>
            (wpc (threads s ! k) = Release \<or> wpc (threads s ! k) = Finished \<longrightarrow>
               int (increments_by ?p k sched) = max 0 (sint it)) \<and>
            (wpc (threads s ! k) = Acquire \<and> \<not> mutex_m s \<longrightarrow>
               (\<exists>s'. step ?p (Worker k) s = Next s' \<and> mutex_m s' \<and>
                  wpc (threads s' ! k) = Test)) \<and>
            (wpc (threads s ! k) = Release \<longrightarrow>
               (\<exists>s'. step ?p (Worker k) s = Next s' \<and> \<not> mutex_m s' \<and>
                  wpc (threads s' ! k) = Finished))"
    using pos [OF r] by blast
  have B: "mpc s = Exited \<longrightarrow>
            length (threads s) = nthreads ?p \<and>
            (\<forall>k < nthreads ?p.
               acquires ?p k sched = 1 \<and> releases ?p k sched = 1 \<and>
               int (increments_by ?p k sched) = max 0 (sint it))"
    using compl [OF r] by blast
  have C: "nthreads ?p * iters ?p < 2 ^ 31 \<longrightarrow>
            (\<exists>rest s'. completes ?p (sched @ rest) s' \<and>
               (\<forall>k < nthreads ?p.
                  acquires ?p k (sched @ rest) = 1 \<and> releases ?p k (sched @ rest) = 1))"
  proof
    assume "nthreads ?p * iters ?p < 2 ^ 31"
    then have "discipline_of ?p = Locking \<longrightarrow> nthreads ?p * iters ?p < 2 ^ 31" by blast
    from extend_complete [OF this r] obtain rest s' where c: "completes ?p (sched @ rest) s'"
      by blast
    then have "run ?p (sched @ rest) = Next s'" and "mpc s' = Exited"
      by (simp_all add: completes_def)
    from compl [OF this] c
    show "\<exists>rest s'. completes ?p (sched @ rest) s' \<and>
               (\<forall>k < nthreads ?p.
                  acquires ?p k (sched @ rest) = 1 \<and> releases ?p k (sched @ rest) = 1)"
      by blast
  qed
  show ?thesis by (intro conjI A B C)
qed

theorem lock_held_for_whole_loop_witness:
  "run (MutexMain 2 1) [Main, Main, Worker 0, Worker 0, Worker 0] =
     Next \<lparr>counter = 0, mutex_m = True,
      threads = [\<lparr>wpc = Store, wi = 0, wtmp = 0, memeSmth = []\<rparr>,
                 \<lparr>wpc = Acquire, wi = 0, wtmp = 0, memeSmth = []\<rparr>],
      mpc = Spawn, main_i = 2, cout = [], exit_code = None\<rparr> \<and>
   acquires (MutexMain 2 1) 0 [Main, Main, Worker 0, Worker 0, Worker 0] = 1 \<and>
   releases (MutexMain 2 1) 0 [Main, Main, Worker 0, Worker 0, Worker 0] = 0 \<and>
   acquires (MutexMain 2 1) 1 [Main, Main, Worker 0, Worker 0, Worker 0] = 0 \<and>
   increments_by (MutexMain 2 1) 1 [Main, Main, Worker 0, Worker 0, Worker 0] = 0 \<and>
   step (MutexMain 2 1) (Worker 1)
     \<lparr>counter = 0, mutex_m = True,
      threads = [\<lparr>wpc = Store, wi = 0, wtmp = 0, memeSmth = []\<rparr>,
                 \<lparr>wpc = Acquire, wi = 0, wtmp = 0, memeSmth = []\<rparr>],
      mpc = Spawn, main_i = 2, cout = [], exit_code = None\<rparr> = Disabled \<and>
   nthreads (MutexMain 2 1) * iters (MutexMain 2 1) < 2 ^ 31 \<and>
   (\<exists>rest s'. completes (MutexMain 2 1) ([Main, Main, Worker 0, Worker 0, Worker 0] @ rest) s' \<and>
      acquires (MutexMain 2 1) 1 ([Main, Main, Worker 0, Worker 0, Worker 0] @ rest) = 1 \<and>
      releases (MutexMain 2 1) 1 ([Main, Main, Worker 0, Worker 0, Worker 0] @ rest) = 1) \<and>
   run (MutexMain 2 1) [Main, Main] =
     Next \<lparr>counter = 0, mutex_m = False,
      threads = [\<lparr>wpc = Acquire, wi = 0, wtmp = 0, memeSmth = []\<rparr>,
                 \<lparr>wpc = Acquire, wi = 0, wtmp = 0, memeSmth = []\<rparr>],
      mpc = Spawn, main_i = 2, cout = [], exit_code = None\<rparr> \<and>
   (\<exists>s'. step (MutexMain 2 1) (Worker 1)
      \<lparr>counter = 0, mutex_m = False,
       threads = [\<lparr>wpc = Acquire, wi = 0, wtmp = 0, memeSmth = []\<rparr>,
                  \<lparr>wpc = Acquire, wi = 0, wtmp = 0, memeSmth = []\<rparr>],
       mpc = Spawn, main_i = 2, cout = [], exit_code = None\<rparr> = Next s' \<and> mutex_m s') \<and>
   run (MutexMain 2 1) sequential_schedule =
     Next \<lparr>counter = 2, mutex_m = False,
      threads = [\<lparr>wpc = Finished, wi = 1, wtmp = 0, memeSmth = ''1''\<rparr>,
                 \<lparr>wpc = Finished, wi = 1, wtmp = 1, memeSmth = ''2''\<rparr>],
      mpc = Exited, main_i = 2, cout = [''Counter: 2''], exit_code = Some 0\<rparr> \<and>
   acquires (MutexMain 2 1) 1 sequential_schedule = 1 \<and>
   releases (MutexMain 2 1) 1 sequential_schedule = 1 \<and>
   int (increments_by (MutexMain 2 1) 1 sequential_schedule) = max 0 (sint (1::cint))"
proof -
  let ?p = "MutexMain 2 1"
  let ?sched = "[Main, Main, Worker 0, Worker 0, Worker 0]"
  let ?s = "\<lparr>counter = 0, mutex_m = True,
      threads = [\<lparr>wpc = Store, wi = 0, wtmp = 0, memeSmth = []\<rparr>,
                 \<lparr>wpc = Acquire, wi = 0, wtmp = 0, memeSmth = []\<rparr>],
      mpc = Spawn, main_i = 2, cout = [], exit_code = None\<rparr>"
  let ?b = "\<lparr>counter = 0, mutex_m = False,
      threads = [\<lparr>wpc = Acquire, wi = 0, wtmp = 0, memeSmth = []\<rparr>,
                 \<lparr>wpc = Acquire, wi = 0, wtmp = 0, memeSmth = []\<rparr>],
      mpc = Spawn, main_i = 2, cout = [], exit_code = None\<rparr>"
  let ?e = "\<lparr>counter = 2, mutex_m = False,
      threads = [\<lparr>wpc = Finished, wi = 1, wtmp = 0, memeSmth = ''1''\<rparr>,
                 \<lparr>wpc = Finished, wi = 1, wtmp = 1, memeSmth = ''2''\<rparr>],
      mpc = Exited, main_i = 2, cout = [''Counter: 2''], exit_code = Some 0\<rparr>"
  have r: "run ?p ?sched = Next ?s"
    by (simp add: eval_defs)
  have b: "run ?p [Main, Main] = Next ?b"
    by (simp add: eval_defs)
  have e: "run ?p sequential_schedule = Next ?e"
    by (simp add: eval_defs)
  have fits: "nthreads ?p * iters ?p < 2 ^ 31" by simp
  note at_r = lock_held_for_whole_loop [OF r, THEN conjunct1, rule_format]
  note ext_r = lock_held_for_whole_loop [OF r, THEN conjunct2, THEN conjunct2, rule_format]
  note at_b = lock_held_for_whole_loop [OF b, THEN conjunct1, rule_format]
  note at_e = lock_held_for_whole_loop [OF e, THEN conjunct2, THEN conjunct1, rule_format]
  have k0: "0 < length (threads ?s)" and k1: "1 < length (threads ?s)"
    and kb: "1 < length (threads ?b)"
    by simp_all
  from at_r [OF k0]
  have a0: "acquires ?p 0 ?sched = 1" and r0: "releases ?p 0 ?sched = 0"
    and d: "\<forall>j. j \<noteq> 0 \<longrightarrow> step ?p (Worker j) ?s = Disabled"
    by simp_all
  from d have d1: "step ?p (Worker 1) ?s = Disabled" by simp
  from at_r [OF k1]
  have a1: "acquires ?p 1 ?sched = 0" and i1: "increments_by ?p 1 ?sched = 0"
    by simp_all
  from ext_r [OF fits] obtain rest s' where c: "completes ?p (?sched @ rest) s'"
    and all: "\<forall>k < nthreads ?p. acquires ?p k (?sched @ rest) = 1 \<and> releases ?p k (?sched @ rest) = 1"
    by blast
  from all have "acquires ?p 1 (?sched @ rest) = 1 \<and> releases ?p 1 (?sched @ rest) = 1"
    by simp
  with c have x: "\<exists>rest s'. completes ?p (?sched @ rest) s' \<and>
      acquires ?p 1 (?sched @ rest) = 1 \<and> releases ?p 1 (?sched @ rest) = 1"
    by blast
  from at_b [OF kb]
  have "wpc (threads ?b ! 1) = Acquire \<and> \<not> mutex_m ?b \<longrightarrow>
     (\<exists>s'. step ?p (Worker 1) ?b = Next s' \<and> mutex_m s' \<and> wpc (threads s' ! 1) = Test)"
    by (elim conjE)
  then have y: "\<exists>s'. step ?p (Worker 1) ?b = Next s' \<and> mutex_m s'" by auto
  have "mpc ?e = Exited" by simp
  from at_e [OF this]
  have a2: "acquires ?p 1 sequential_schedule = 1"
    and r2: "releases ?p 1 sequential_schedule = 1"
    and i2: "int (increments_by ?p 1 sequential_schedule) = max 0 (sint (1::cint))"
    by simp_all
  from r a0 r0 a1 i1 d1 fits x b y e a2 r2 i2 show ?thesis by (intro conjI)
qed

text \<open>
  Claim C4. Two runs of one program that both complete return the same count and
  print the same lines, whatever their schedules; and the atomic program with 100
  threads of 1000000 iterations returns 100000000 on every completed run, meets no
  undefined behaviour, and every run of it can be continued to a completed one.
\<close>

theorem final_count_deterministic:
  "(\<forall>p sched1 sched2 v1 v2.
      final_count p sched1 = Some v1 \<and> final_count p sched2 = Some v2 \<longrightarrow> v1 = v2) \<and>
   (\<forall>p sched1 sched2 s1 s2.
      completes p sched1 s1 \<and> completes p sched2 s2 \<longrightarrow> cout s1 = cout s2) \<and>
   atomic_main = AtomicMain 100 1000000 \<and>
   (\<forall>sched v. final_count atomic_main sched = Some v \<longrightarrow> v = 100000000) \<and>
   (\<forall>sched. run atomic_main sched \<noteq> Undefined) \<and>
   (\<forall>sched s. run atomic_main sched = Next s \<longrightarrow>
      (\<exists>rest. final_count atomic_main (sched @ rest) = Some 100000000))"
proof -
  have same: "counter s1 = counter s2" if "completes p sched1 s1" "completes p sched2 s2"
    for p sched1 sched2 s1 s2
    using that by (simp add: completes_counter)
  have A: "\<forall>p sched1 sched2 v1 v2.
      final_count p sched1 = Some v1 \<and> final_count p sched2 = Some v2 \<longrightarrow> v1 = v2"
  proof (intro allI impI)
    fix p sched1 sched2 v1 v2
    assume "final_count p sched1 = Some v1 \<and> final_count p sched2 = Some v2"
    then obtain s1 s2 where "completes p sched1 s1" "v1 = sint (counter s1)"
      "completes p sched2 s2" "v2 = sint (counter s2)"
      unfolding final_count_iff by blast
    with same [of p sched1 s1 sched2 s2] show "v1 = v2" by simp
  qed
  have B: "\<forall>p sched1 sched2 s1 s2.
      completes p sched1 s1 \<and> completes p sched2 s2 \<longrightarrow> cout s1 = cout s2"
  proof (intro allI impI)
    fix p sched1 sched2 s1 s2
    assume "completes p sched1 s1 \<and> completes p sched2 s2"
    then have c1: "completes p sched1 s1" and c2: "completes p sched2 s2"
      by simp_all
    from c1 have i1: "invariant p s1" by (rule completes_invariant)
    from c2 have i2: "invariant p s2" by (rule completes_invariant)
    from c1 c2 have e1: "mpc s1 = Exited" and e2: "mpc s2 = Exited"
      by (simp_all add: completes_def)
    from c1 c2 have "counter s1 = counter s2" by (rule same)
    with exited_facts(2) [OF i1 e1] exited_facts(2) [OF i2 e2]
    show "cout s1 = cout s2" by simp
  qed
  have val: "sint (counter s) = 100000000" if "completes atomic_main sched s" for sched s
    using completes_counter [OF that] by (simp add: atomic_main_def)
  have D: "\<forall>sched v. final_count atomic_main sched = Some v \<longrightarrow> v = 100000000"
  proof (intro allI impI)
    fix sched v
    assume "final_count atomic_main sched = Some v"
    then obtain s where "completes atomic_main sched s" and v: "v = sint (counter s)"
      unfolding final_count_iff by blast
    then have "sint (counter s) = 100000000" by (intro val)
    with v show "v = 100000000" by simp
  qed
  have E: "\<forall>sched. run atomic_main sched \<noteq> Undefined"
    by (intro allI run_defined) (simp add: atomic_main_def)
  have F: "\<forall>sched s. run atomic_main sched = Next s \<longrightarrow>
      (\<exists>rest. final_count atomic_main (sched @ rest) = Some 100000000)"
  proof (intro allI impI)
    fix sched s
    assume r: "run atomic_main sched = Next s"
    have "discipline_of atomic_main = Locking \<longrightarrow> nthreads atomic_main * iters atomic_main < 2 ^ 31"
      by (simp add: atomic_main_def)
    from extend_complete [OF this r]
    obtain rest s' where c: "completes atomic_main (sched @ rest) s'"
      by blast
    from c have "final_count atomic_main (sched @ rest) = Some (sint (counter s'))"
      unfolding final_count_iff by blast
    with val [OF c] have "final_count atomic_main (sched @ rest) = Some 100000000"
      by simp
    then show "\<exists>rest. final_count atomic_main (sched @ rest) = Some 100000000" ..
  qed
  show ?thesis
    by (intro conjI A B atomic_main_def D E F)
qed

theorem final_count_deterministic_witness:
  "final_count (AtomicMain 2 1) reverse_schedule = Some 2 \<and>
   final_count (AtomicMain 2 1) interleaved_schedule = Some 2 \<and>
   reverse_schedule \<noteq> interleaved_schedule \<and>
   final_count atomic_main (canonical_schedule atomic_main) = Some 100000000"
proof -
  note det = final_count_deterministic [THEN conjunct1, rule_format]
  note val = final_count_deterministic [THEN conjunct2, THEN conjunct2, THEN conjunct2,
      THEN conjunct1, rule_format]
  have a: "final_count (AtomicMain 2 1) reverse_schedule = Some 2"
    by (simp add: eval_defs)
  have "\<exists>v. final_count (AtomicMain 2 1) interleaved_schedule = Some v"
    by (simp add: eval_defs)
  then obtain v where b: "final_count (AtomicMain 2 1) interleaved_schedule = Some v" ..
  from a b have "2 = v" by (intro det) simp
  with b have b': "final_count (AtomicMain 2 1) interleaved_schedule = Some 2" by simp
  have "\<exists>s. completes atomic_main (canonical_schedule atomic_main) s"
    by (rule canonical_completes) (simp add: atomic_main_def)
  then obtain s where "completes atomic_main (canonical_schedule atomic_main) s" ..
  then have f: "final_count atomic_main (canonical_schedule atomic_main) = Some (sint (counter s))"
    unfolding final_count_iff by blast
  then have "sint (counter s) = 100000000" by (rule val)
  with f have c: "final_count atomic_main (canonical_schedule atomic_main) = Some 100000000"
    by simp
  have d: "reverse_schedule \<noteq> interleaved_schedule"
    by (simp add: reverse_schedule_def interleaved_schedule_def)
  from a b' d c show ?thesis by (intro conjI)
qed

text \<open>
  Claim C5. For \<^verbatim>\<open>threadCount >= 1\<close> and \<^verbatim>\<open>iterations == 0\<close>, under either discipline:
  every run that completes returns 0; along every run no worker executes an
  increment and the counter stays 0; and every run can be continued to a completed
  one.
\<close>

theorem zero_iterations_count_zero:
  assumes prog: "p = MutexMain tc 0 \<or> p = AtomicMain tc 0" and tc: "1 \<le> sint tc"
  shows "(\<forall>sched v. final_count p sched = Some v \<longrightarrow> v = 0) \<and>
         (\<forall>sched. run p sched \<noteq> Undefined) \<and>
         (\<forall>sched s. run p sched = Next s \<longrightarrow>
            increments p sched = 0 \<and> counter s = 0 \<and>
            (\<exists>rest. final_count p (sched @ rest) = Some 0))"
proof -
  from prog have n: "iters p = 0" by auto
  have zero: "increments p sched = 0 \<and> counter s = 0" if "run p sched = Next s" for sched s
    using run_increments_le [OF that] run_counter [OF that] by (simp add: n)
  have "v = 0" if "final_count p sched = Some v" for sched v
    using that zero by (auto simp: final_count_iff completes_def)
  moreover have "run p sched \<noteq> Undefined" for sched
    by (intro run_defined) (simp add: n)
  moreover have "\<exists>rest. final_count p (sched @ rest) = Some 0" if "run p sched = Next s" for sched s
  proof -
    from extend_complete [OF _ that] obtain rest s' where c: "completes p (sched @ rest) s'"
      by (auto simp: n)
    then have "counter s' = 0" using zero by (auto simp: completes_def)
    with c have "final_count p (sched @ rest) = Some 0"
      by (auto simp: final_count_iff)
    then show ?thesis ..
  qed
  ultimately show ?thesis using zero by blast
qed

theorem zero_iterations_count_zero_witness:
  "1 \<le> sint (2::cint) \<and>
   final_count (MutexMain 2 0)
     [Main, Main, Main, Worker 1, Worker 1, Worker 1, Worker 0, Worker 0, Worker 0,
      Main, Main, Main, Main, Main] = Some 0 \<and>
   final_count (AtomicMain 2 0)
     [Main, Worker 0, Main, Main, Worker 1, Main, Main, Main, Main, Main] = Some 0 \<and>
   increments (MutexMain 2 0) [Main, Main, Main, Worker 1, Worker 1, Worker 1] = 0 \<and>
   increments (AtomicMain 2 0) [Main, Worker 0, Main, Main, Worker 1] = 0"
proof -
  have h: "1 \<le> sint (2::cint)" by simp
  have m: "\<exists>v. final_count (MutexMain 2 0)
     [Main, Main, Main, Worker 1, Worker 1, Worker 1, Worker 0, Worker 0, Worker 0,
      Main, Main, Main, Main, Main] = Some v"
    by (simp add: eval_defs)
  have a: "\<exists>v. final_count (AtomicMain 2 0)
     [Main, Worker 0, Main, Main, Worker 1, Main, Main, Main, Main, Main] = Some v"
    by (simp add: eval_defs)
  have m': "\<exists>s. run (MutexMain 2 0) [Main, Main, Main, Worker 1, Worker 1, Worker 1] = Next s"
    by (simp add: eval_defs)
  have a': "\<exists>s. run (AtomicMain 2 0) [Main, Worker 0, Main, Main, Worker 1] = Next s"
    by (simp add: eval_defs)
  from m a m' a'
    zero_iterations_count_zero [of "MutexMain 2 0" 2, OF _ h]
    zero_iterations_count_zero [of "AtomicMain 2 0" 2, OF _ h]
  show ?thesis by (simp add: h) blast
qed

text \<open>
  Claim C6. The spawn loop fills the thread vector in order and the join loop walks
  it in order; all workers run the same code. Take any run up to a point in the
  spawn loop or at its end, before the first join, and permute the vector in any
  way: the runs that complete from the permuted state return the count and print
  the lines of the runs that complete from the unpermuted one, and (the product
  fitting an \<^verbatim>\<open>int\<close> in the mutex program) such runs exist.
\<close>

theorem count_independent_of_thread_order:
  assumes r: "run p sched = Next s" and j: "mpc s = Spawn \<or> mpc s = Join 0"
    and perm: "mset ws = mset (threads s)"
  shows "(\<forall>rest rest' s1 s2.
            exec p rest s = Next s1 \<and> mpc s1 = Exited \<and>
            exec p rest' (s\<lparr>threads := ws\<rparr>) = Next s2 \<and> mpc s2 = Exited
            \<longrightarrow> counter s2 = counter s1 \<and> cout s2 = cout s1) \<and>
         ((discipline_of p = Locking \<longrightarrow> nthreads p * iters p < 2 ^ 31) \<longrightarrow>
            (\<exists>rest' s2. exec p rest' (s\<lparr>threads := ws\<rparr>) = Next s2 \<and> mpc s2 = Exited))"
proof (intro conjI allI impI)
  from r have inv: "invariant p s" by (rule run_invariant)
  then have inv': "invariant p (s\<lparr>threads := ws\<rparr>)"
    using j perm by (rule permuted_invariant)
  {
    fix rest rest' s1 s2
    assume a: "exec p rest s = Next s1 \<and> mpc s1 = Exited \<and>
            exec p rest' (s\<lparr>threads := ws\<rparr>) = Next s2 \<and> mpc s2 = Exited"
    then have i1: "invariant p s1" and i2: "invariant p s2"
      using inv inv' by (auto intro: exec_invariant)
    from a have e1: "mpc s1 = Exited" and e2: "mpc s2 = Exited" by simp_all
    from exited_facts(1) [OF i1 e1] exited_facts(1) [OF i2 e2]
    show c: "counter s2 = counter s1" by simp
    from exited_facts(2) [OF i1 e1] exited_facts(2) [OF i2 e2] c
    show "cout s2 = cout s1" by simp
  }
  assume "discipline_of p = Locking \<longrightarrow> nthreads p * iters p < 2 ^ 31"
  then show "\<exists>rest' s2. exec p rest' (s\<lparr>threads := ws\<rparr>) = Next s2 \<and> mpc s2 = Exited"
    using inv' by (rule can_complete)
qed

theorem count_independent_of_thread_order_witness:
  "run (AtomicMain 2 1) [Main, Main, Main, Worker 0, Worker 0] =
     Next \<lparr>counter = 1, mutex_m = False,
      threads = [\<lparr>wpc = ToString, wi = 0, wtmp = 0, memeSmth = []\<rparr>,
                 \<lparr>wpc = Test, wi = 0, wtmp = 0, memeSmth = []\<rparr>],
      mpc = Join 0, main_i = 2, cout = [], exit_code = None\<rparr> \<and>
   mset [\<lparr>wpc = Test, wi = 0, wtmp = 0, memeSmth = []\<rparr>,
         \<lparr>wpc = ToString, wi = 0, wtmp = 0, memeSmth = []\<rparr>] =
   mset [\<lparr>wpc = ToString, wi = 0, wtmp = 0, memeSmth = []\<rparr>,
         \<lparr>wpc = Test, wi = 0, wtmp = 0, memeSmth = []\<rparr>] \<and>
   exec (AtomicMain 2 1)
     [Worker 0, Worker 0, Worker 0, Worker 1, Worker 1, Worker 1, Worker 1, Worker 1,
      Main, Main, Main, Main, Main]
     \<lparr>counter = 1, mutex_m = False,
      threads = [\<lparr>wpc = ToString, wi = 0, wtmp = 0, memeSmth = []\<rparr>,
                 \<lparr>wpc = Test, wi = 0, wtmp = 0, memeSmth = []\<rparr>],
      mpc = Join 0, main_i = 2, cout = [], exit_code = None\<rparr> =
     Next \<lparr>counter = 2, mutex_m = False,
      threads = [\<lparr>wpc = Finished, wi = 1, wtmp = 0, memeSmth = ''1''\<rparr>,
                 \<lparr>wpc = Finished, wi = 1, wtmp = 0, memeSmth = ''2''\<rparr>],
      mpc = Exited, main_i = 2, cout = [''Counter: 2''], exit_code = Some 0\<rparr> \<and>
   (\<exists>s2. exec (AtomicMain 2 1)
     [Worker 0, Worker 0, Worker 0, Worker 0, Worker 0, Worker 1, Worker 1, Worker 1,
      Main, Main, Main, Main, Main]
     \<lparr>counter = 1, mutex_m = False,
      threads = [\<lparr>wpc = Test, wi = 0, wtmp = 0, memeSmth = []\<rparr>,
                 \<lparr>wpc = ToString, wi = 0, wtmp = 0, memeSmth = []\<rparr>],
      mpc = Join 0, main_i = 2, cout = [], exit_code = None\<rparr> = Next s2 \<and>
     mpc s2 = Exited \<and> counter s2 = 2 \<and> cout s2 = [''Counter: 2''])"
proof -
  let ?w0 = "\<lparr>wpc = ToString, wi = 0, wtmp = 0, memeSmth = []\<rparr>"
  let ?w1 = "\<lparr>wpc = Test, wi = 0, wtmp = 0, memeSmth = []\<rparr>"
  let ?s = "\<lparr>counter = 1, mutex_m = False, threads = [?w0, ?w1],
      mpc = Join 0, main_i = 2, cout = [], exit_code = None\<rparr>"
  let ?s1 = "\<lparr>counter = 2, mutex_m = False,
      threads = [\<lparr>wpc = Finished, wi = 1, wtmp = 0, memeSmth = ''1''\<rparr>,
                 \<lparr>wpc = Finished, wi = 1, wtmp = 0, memeSmth = ''2''\<rparr>],
      mpc = Exited, main_i = 2, cout = [''Counter: 2''], exit_code = Some 0\<rparr>"
  let ?rest = "[Worker 0, Worker 0, Worker 0, Worker 1, Worker 1, Worker 1, Worker 1, Worker 1,
      Main, Main, Main, Main, Main]"
  let ?rest' = "[Worker 0, Worker 0, Worker 0, Worker 0, Worker 0, Worker 1, Worker 1, Worker 1,
      Main, Main, Main, Main, Main]"
  have r: "run (AtomicMain 2 1) [Main, Main, Main, Worker 0, Worker 0] = Next ?s"
    by (simp add: eval_defs)
  have j: "mpc ?s = Spawn \<or> mpc ?s = Join 0" by simp
  have perm: "mset [?w1, ?w0] = mset (threads ?s)" by simp
  have e1: "exec (AtomicMain 2 1) ?rest ?s = Next ?s1"
    by (simp add: eval_defs)
  have "\<exists>s2. exec (AtomicMain 2 1) ?rest' (?s\<lparr>threads := [?w1, ?w0]\<rparr>) = Next s2 \<and> mpc s2 = Exited"
    by (simp add: eval_defs)
  then obtain s2 where e2: "exec (AtomicMain 2 1) ?rest' (?s\<lparr>threads := [?w1, ?w0]\<rparr>) = Next s2"
    and x2: "mpc s2 = Exited" by blast
  from count_independent_of_thread_order [OF r j perm, THEN conjunct1, rule_format, of ?rest ?s1 ?rest' s2]
    e1 e2 x2
  have "counter s2 = counter ?s1 \<and> cout s2 = cout ?s1" by simp
  then have "counter s2 = 2 \<and> cout s2 = [''Counter: 2'']" by simp
  with e2 x2 have "\<exists>s2. exec (AtomicMain 2 1) ?rest' (?s\<lparr>threads := [?w1, ?w0]\<rparr>) = Next s2 \<and>
     mpc s2 = Exited \<and> counter s2 = 2 \<and> cout s2 = [''Counter: 2'']" by blast
  then have last: "\<exists>s2. exec (AtomicMain 2 1) ?rest'
     \<lparr>counter = 1, mutex_m = False, threads = [?w1, ?w0],
      mpc = Join 0, main_i = 2, cout = [], exit_code = None\<rparr> = Next s2 \<and>
     mpc s2 = Exited \<and> counter s2 = 2 \<and> cout s2 = [''Counter: 2'']" by simp
  from perm have perm': "mset [?w1, ?w0] = mset [?w0, ?w1]" by simp
  from r perm' e1 last show ?thesis by (intro conjI)
qed

text \<open>
  Claim C7. The two \<^verbatim>\<open>main\<close> programs take no input: they are the mutex and the atomic
  program at \<^verbatim>\<open>threadCount = 100\<close> and \<^verbatim>\<open>iterations = 1000000\<close>. Every run of either that
  completes has written exactly one line, \<^verbatim>\<open>Counter: 100000000\<close>, which is
  \<^verbatim>\<open>Counter: \<close> followed by the final value of the counter, and has returned exit
  code 0; no run meets undefined behaviour, and every run can be continued to a
  completed one.
\<close>

theorem main_prints_counter_and_returns_zero:
  "mutex_main = MutexMain 100 1000000 \<and> atomic_main = AtomicMain 100 1000000 \<and>
   (\<forall>p sched s. (p = mutex_main \<or> p = atomic_main) \<and> completes p sched s \<longrightarrow>
      cout s = [''Counter: '' @ to_string (counter s)] \<and>
      cout s = [''Counter: 100000000''] \<and> exit_code s = Some 0) \<and>
   (\<forall>p sched. p = mutex_main \<or> p = atomic_main \<longrightarrow> run p sched \<noteq> Undefined) \<and>
   (\<forall>p sched s. (p = mutex_main \<or> p = atomic_main) \<and> run p sched = Next s \<longrightarrow>
      (\<exists>rest s'. completes p (sched @ rest) s'))"
proof -
  have A: "\<forall>p sched s. (p = mutex_main \<or> p = atomic_main) \<and> completes p sched s \<longrightarrow>
      cout s = [''Counter: '' @ to_string (counter s)] \<and>
      cout s = [''Counter: 100000000''] \<and> exit_code s = Some 0"
  proof (intro allI impI)
    fix p sched s
    assume a: "(p = mutex_main \<or> p = atomic_main) \<and> completes p sched s"
    then have p: "p = mutex_main \<or> p = atomic_main" and c: "completes p sched s" by simp_all
    from c have inv: "invariant p s" by (rule completes_invariant)
    from c have ex: "mpc s = Exited" by (simp add: completes_def)
    have "counter s = word_of_nat (nthreads p * iters p)" using inv ex by (rule exited_facts(1))
    then have v: "counter s = 100000000" by (simp add: reference_fits [OF p])
    from exited_facts(2) [OF inv ex]
    have o: "cout s = [''Counter: '' @ to_string (counter s)]"
      by (simp add: reference_printed [OF p])
    moreover from o v have "cout s = [''Counter: 100000000'']"
      by (simp add: to_string_reference)
    moreover have "exit_code s = Some 0" using inv ex by (rule exited_facts(3))
    ultimately show "cout s = [''Counter: '' @ to_string (counter s)] \<and>
      cout s = [''Counter: 100000000''] \<and> exit_code s = Some 0" by (intro conjI)
  qed
  have B: "\<forall>p sched. p = mutex_main \<or> p = atomic_main \<longrightarrow> run p sched \<noteq> Undefined"
    by (intro allI impI run_defined reference_fits(3))
  have C: "\<forall>p sched s. (p = mutex_main \<or> p = atomic_main) \<and> run p sched = Next s \<longrightarrow>
      (\<exists>rest s'. completes p (sched @ rest) s')"
  proof (intro allI impI)
    fix p sched s
    assume "(p = mutex_main \<or> p = atomic_main) \<and> run p sched = Next s"
    then have p: "p = mutex_main \<or> p = atomic_main" and r: "run p sched = Next s" by simp_all
    from reference_fits(3) [OF p] r show "\<exists>rest s'. completes p (sched @ rest) s'"
      by (rule extend_complete)
  qed
  show ?thesis
    by (intro conjI mutex_main_def atomic_main_def A B C)
qed

theorem main_prints_counter_and_returns_zero_witness:
  "(\<exists>s. completes mutex_main (canonical_schedule mutex_main) s \<and>
      cout s = [''Counter: 100000000''] \<and> exit_code s = Some 0) \<and>
   (\<exists>s. completes atomic_main (canonical_schedule atomic_main) s \<and>
      cout s = [''Counter: 100000000''] \<and> exit_code s = Some 0)"
proof -
  note out = main_prints_counter_and_returns_zero [THEN conjunct2, THEN conjunct2, THEN conjunct1,
      rule_format]
  have "\<exists>s. completes p (canonical_schedule p) s \<and> cout s = [''Counter: 100000000''] \<and>
      exit_code s = Some 0"
    if p: "p = mutex_main \<or> p = atomic_main" for p
  proof -
    from reference_fits(3) [OF p] obtain s where c: "completes p (canonical_schedule p) s"
      using canonical_completes [of p] by blast
    from p c have "(p = mutex_main \<or> p = atomic_main) \<and> completes p (canonical_schedule p) s"
      by (intro conjI)
    then have "cout s = [''Counter: '' @ to_string (counter s)] \<and>
      cout s = [''Counter: 100000000''] \<and> exit_code s = Some 0" by (rule out)
    then have o: "cout s = [''Counter: 100000000''] \<and> exit_code s = Some 0"
      by (rule conjunct2)
    then have "cout s = [''Counter: 100000000'']" by (rule conjunct1)
    moreover from o have "exit_code s = Some 0" by (rule conjunct2)
    ultimately have "completes p (canonical_schedule p) s \<and> cout s = [''Counter: 100000000''] \<and>
      exit_code s = Some 0"
      using c by (intro conjI)
    then show ?thesis by (intro exI)
  qed
  from this [of mutex_main] this [of atomic_main] show ?thesis by simp
qed




text \<open>
  Claim C9. With the configuration the two \<^verbatim>\<open>main\<close> programs are shipped with, the
  product \<^verbatim>\<open>100 * 1000000 = 100000000\<close> is no more than \<^verbatim>\<open>INT_MAX\<close>; no schedule of
  either program meets the undefined behaviour of a signed overflow; and after any
  schedule whatever the counter, read as a signed 32-bit value, is exactly the
  number of increments executed so far, between 0 and 100000000: it has never
  wrapped.
\<close>

theorem reference_run_never_overflows:
  "sint (threadCount mutex_main) * sint (iterations mutex_main) = 100000000 \<and>
   sint (threadCount atomic_main) * sint (iterations atomic_main) = 100000000 \<and>
   (100000000 :: int) \<le> sint INT_MAX \<and>
   (\<forall>p sched. p = mutex_main \<or> p = atomic_main \<longrightarrow> run p sched \<noteq> Undefined) \<and>
   (\<forall>p sched s. (p = mutex_main \<or> p = atomic_main) \<and> run p sched = Next s \<longrightarrow>
      sint (counter s) = int (increments p sched) \<and>
      0 \<le> sint (counter s) \<and> sint (counter s) \<le> 100000000)"
proof -
  have A: "sint (threadCount mutex_main) * sint (iterations mutex_main) = 100000000"
    by (simp add: mutex_main_def)
  have B: "sint (threadCount atomic_main) * sint (iterations atomic_main) = 100000000"
    by (simp add: atomic_main_def)
  have C: "(100000000 :: int) \<le> sint INT_MAX"
    by (simp add: INT_MAX_def)
  have D: "\<forall>p sched. p = mutex_main \<or> p = atomic_main \<longrightarrow> run p sched \<noteq> Undefined"
    by (intro allI impI run_defined reference_fits(3))
  have E: "\<forall>p sched s. (p = mutex_main \<or> p = atomic_main) \<and> run p sched = Next s \<longrightarrow>
      sint (counter s) = int (increments p sched) \<and>
      0 \<le> sint (counter s) \<and> sint (counter s) \<le> 100000000"
  proof (intro allI impI)
    fix p sched s
    assume "(p = mutex_main \<or> p = atomic_main) \<and> run p sched = Next s"
    then have p: "p = mutex_main \<or> p = atomic_main" and r: "run p sched = Next s" by simp_all
    have n: "nthreads p * iters p = 100000000"
      by (simp add: reference_fits(1,2) [OF p])
    then have fits: "nthreads p * iters p < 2 ^ 31" by simp
    from run_counter_exact [OF fits r] n
    have "sint (counter s) = int (increments p sched)" and "increments p sched \<le> 100000000"
      by simp_all
    then show "sint (counter s) = int (increments p sched) \<and>
      0 \<le> sint (counter s) \<and> sint (counter s) \<le> 100000000"
      by simp
  qed
  show ?thesis by (intro conjI A B C D E)
qed

theorem reference_run_never_overflows_witness:
  "run atomic_main [Main, Main, Worker 0, Worker 0] =
     Next \<lparr>counter = 1, mutex_m = False,
      threads = [\<lparr>wpc = ToString, wi = 0, wtmp = 0, memeSmth = []\<rparr>,
                 \<lparr>wpc = Test, wi = 0, wtmp = 0, memeSmth = []\<rparr>],
      mpc = Spawn, main_i = 2, cout = [], exit_code = None\<rparr> \<and>
   int (increments atomic_main [Main, Main, Worker 0, Worker 0]) = 1 \<and>
   run mutex_main [Main, Main, Worker 1, Worker 1, Worker 1, Worker 1] =
     Next \<lparr>counter = 1, mutex_m = True,
      threads = [\<lparr>wpc = Acquire, wi = 0, wtmp = 0, memeSmth = []\<rparr>,
                 \<lparr>wpc = ToString, wi = 0, wtmp = 0, memeSmth = []\<rparr>],
      mpc = Spawn, main_i = 2, cout = [], exit_code = None\<rparr> \<and>
   int (increments mutex_main [Main, Main, Worker 1, Worker 1, Worker 1, Worker 1]) = 1"
proof -
  note exact = reference_run_never_overflows [THEN conjunct2, THEN conjunct2, THEN conjunct2,
      THEN conjunct2, rule_format]
  let ?a = "\<lparr>counter = 1, mutex_m = False,
      threads = [\<lparr>wpc = ToString, wi = 0, wtmp = 0, memeSmth = []\<rparr>,
                 \<lparr>wpc = Test, wi = 0, wtmp = 0, memeSmth = []\<rparr>],
      mpc = Spawn, main_i = 2, cout = [], exit_code = None\<rparr>"
  let ?m = "\<lparr>counter = 1, mutex_m = True,
      threads = [\<lparr>wpc = Acquire, wi = 0, wtmp = 0, memeSmth = []\<rparr>,
                 \<lparr>wpc = ToString, wi = 0, wtmp = 0, memeSmth = []\<rparr>],
      mpc = Spawn, main_i = 2, cout = [], exit_code = None\<rparr>"
  have a: "run atomic_main [Main, Main, Worker 0, Worker 0] = Next ?a"
    by (simp add: atomic_main_def eval_defs)
  have m: "run mutex_main [Main, Main, Worker 1, Worker 1, Worker 1, Worker 1] = Next ?m"
    by (simp add: mutex_main_def eval_defs)
  from a have "sint (counter ?a) = int (increments atomic_main [Main, Main, Worker 0, Worker 0]) \<and>
      0 \<le> sint (counter ?a) \<and> sint (counter ?a) \<le> 100000000"
    by (intro exact) simp
  then have ia: "int (increments atomic_main [Main, Main, Worker 0, Worker 0]) = 1" by simp
  from m have "sint (counter ?m) =
      int (increments mutex_main [Main, Main, Worker 1, Worker 1, Worker 1, Worker 1]) \<and>
      0 \<le> sint (counter ?m) \<and> sint (counter ?m) \<le> 100000000"
    by (intro exact) simp
  then have im: "int (increments mutex_main [Main, Main, Worker 1, Worker 1, Worker 1, Worker 1]) = 1"
    by simp
  from a ia m im show ?thesis by (intro conjI)
qed

text \<open>
  Claim C10. The feature probe starts with its counter at 0. Every run of it that
  completes has started exactly 5 threads, each of which has executed exactly 1000
  increments, all of them atomic fetch-and-add steps, 5000 in all; the counter is
  5000 and the line printed after the joins is \<^verbatim>\<open>Final counter value: 5000\<close>. No run
  meets undefined behaviour and every run can be continued to a completed one.
\<close>

theorem feature_probe_counts_5000:
  "counter (init (FeatureTest std)) = 0 \<and>
   (\<forall>sched s. completes (FeatureTest std) sched s \<longrightarrow>
      length (threads s) = 5 \<and>
      (\<forall>k < 5. increments_by (FeatureTest std) k sched = 1000) \<and>
      fetch_adds (FeatureTest std) sched = 5000 \<and>
      increments (FeatureTest std) sched = 5000 \<and>
      counter s = 5000 \<and>
      cout s = [''C++ Standard: '' @ digits std, ''Final counter value: 5000'']
                 @ cxx20 (FeatureTest std)) \<and>
   (\<forall>sched. run (FeatureTest std) sched \<noteq> Undefined) \<and>
   (\<forall>sched s. run (FeatureTest std) sched = Next s \<longrightarrow>
      (\<exists>rest s'. completes (FeatureTest std) (sched @ rest) s'))"
proof -
  let ?p = "FeatureTest std"
  have at: "discipline_of ?p = Atomic" by simp
  have A: "counter (init ?p) = 0" by (simp add: init_def)
  have B: "\<forall>sched s. completes ?p sched s \<longrightarrow>
      length (threads s) = 5 \<and>
      (\<forall>k < 5. increments_by ?p k sched = 1000) \<and>
      fetch_adds ?p sched = 5000 \<and>
      increments ?p sched = 5000 \<and>
      counter s = 5000 \<and>
      cout s = [''C++ Standard: '' @ digits std, ''Final counter value: 5000''] @ cxx20 ?p"
  proof (intro allI impI)
    fix sched s
    assume c: "completes ?p sched s"
    then have r: "run ?p sched = Next s" and ex: "mpc s = Exited" by (simp_all add: completes_def)
    from c have inv: "invariant ?p s" by (rule completes_invariant)
    have len: "length (threads s) = 5" using exited_facts(5) [OF inv ex] by simp
    have fin: "\<forall>w \<in> set (threads s). wpc w = Finished" using inv ex by (rule exited_facts(6))
    have each: "increments_by ?p k sched = 1000" if "k < 5" for k
    proof -
      from that len have k: "k < length (threads s)" by simp
      then have "threads s ! k \<in> set (threads s)" by simp
      with fin inv have "wpc (threads s ! k) = Finished" "worker_ok ?p (threads s ! k)"
        by (simp_all add: invariant_def inv_workers_def)
      then have "incs (threads s ! k) = iters ?p" by (simp add: finished_incs)
      with run_increments_by [OF r k] show ?thesis by simp
    qed
    have v: "counter s = 5000" using exited_facts(1) [OF inv ex] by simp
    have total: "increments ?p sched = 5000"
    proof -
      have "\<forall>w \<in> set (threads s). incs w = iters ?p"
        using fin inv by (auto simp: invariant_def inv_workers_def finished_incs)
      then have "sum_list (map incs (threads s)) = length (threads s) * iters ?p"
        by (rule sum_list_all_equal)
      with len run_increments [OF r] show ?thesis by simp
    qed
    have "increments ?p sched =
          fetch_adds ?p sched + count_steps (\<lambda>t c. c = Some Store) ?p sched (init ?p)"
      unfolding increments_def fetch_adds_def by (rule count_steps_disj) simp
    moreover have "count_steps (\<lambda>t c. c = Some Store) ?p sched (init ?p) = 0"
      using at _ init_invariant by (rule atomic_count_zero) simp
    ultimately have fa: "fetch_adds ?p sched = 5000" using total by simp
    have "to_string 5000 = ''5000''"
      by (simp add: to_string_def digits_small digits_large digit_def)
    with exited_facts(2) [OF inv ex] v
    have out: "cout s = [''C++ Standard: '' @ digits std, ''Final counter value: 5000''] @ cxx20 ?p"
      by simp
    from len each fa total v out
    show "length (threads s) = 5 \<and>
      (\<forall>k < 5. increments_by ?p k sched = 1000) \<and>
      fetch_adds ?p sched = 5000 \<and>
      increments ?p sched = 5000 \<and>
      counter s = 5000 \<and>
      cout s = [''C++ Standard: '' @ digits std, ''Final counter value: 5000''] @ cxx20 ?p"
      by (intro conjI allI impI)
  qed
  have C: "\<forall>sched. run ?p sched \<noteq> Undefined"
    by (intro allI run_defined) simp
  have D: "\<forall>sched s. run ?p sched = Next s \<longrightarrow> (\<exists>rest s'. completes ?p (sched @ rest) s')"
    by (intro allI impI, rule extend_complete) simp_all
  show ?thesis by (intro conjI A B C D)
qed

theorem feature_probe_counts_5000_witness:
  "\<exists>s. completes (FeatureTest 201703) (canonical_schedule (FeatureTest 201703)) s \<and>
     length (threads s) = 5 \<and>
     increments_by (FeatureTest 201703) 4 (canonical_schedule (FeatureTest 201703)) = 1000 \<and>
     counter s = 5000 \<and>
     cout s = [''C++ Standard: 201703'', ''Final counter value: 5000'']"
proof -
  let ?p = "FeatureTest 201703"
  note fin = feature_probe_counts_5000 [of 201703, THEN conjunct2, THEN conjunct1, rule_format]
  obtain s where c: "completes ?p (canonical_schedule ?p) s"
    using canonical_completes [of ?p] by auto
  from fin [OF c] have len: "length (threads s) = 5"
    and each: "\<forall>k < 5. increments_by ?p k (canonical_schedule ?p) = 1000"
    and v: "counter s = 5000"
    and out: "cout s = [''C++ Standard: '' @ digits 201703, ''Final counter value: 5000''] @ cxx20 ?p"
    by simp_all
  from each have e4: "increments_by ?p 4 (canonical_schedule ?p) = 1000" by simp
  have "digits 201703 = ''201703''"
    by (simp add: digits_small digits_large digit_def)
  with out have out': "cout s = [''C++ Standard: 201703'', ''Final counter value: 5000'']"
    by simp
  from c len e4 v out'
  have "completes ?p (canonical_schedule ?p) s \<and> length (threads s) = 5 \<and>
     increments_by ?p 4 (canonical_schedule ?p) = 1000 \<and> counter s = 5000 \<and>
     cout s = [''C++ Standard: 201703'', ''Final counter value: 5000'']"
    by (intro conjI)
  then show ?thesis by (intro exI)
qed

end
